theory Spec2Isabelle
  imports Main "HOL-Library.Sublist" "HOL-Library.Multiset"
begin

section \<open>Values of the program\<close>

text \<open>
  The script \<^verbatim>\<open>clean_json.py\<close> works on what \<^verbatim>\<open>json.load\<close> returns. A Python
  \<^verbatim>\<open>str\<close> is a sequence of code points, so a string is a list of naturals; \<open>ustr\<close>
  turns an ASCII literal into one.
\<close>

type_synonym pystr = "nat list"

definition ustr :: "string \<Rightarrow> pystr" where
  "ustr s = map of_char s"

text \<open>
  The values \<^verbatim>\<open>json.load\<close> can return. A \<^verbatim>\<open>dict\<close> keeps insertion order, so an object
  is an association list. A float is kept as the text \<^verbatim>\<open>json.dump\<close> prints for it
  (\<^verbatim>\<open>float.__repr__\<close>, or \<^verbatim>\<open>NaN\<close>, \<^verbatim>\<open>Infinity\<close>, \<^verbatim>\<open>-Infinity\<close>); IEEE rounding is
  not part of this development.
\<close>

datatype json =
    JNull
  | JBool bool
  | JInt int
  | JFloat pystr
  | JStr pystr
  | JArr "json list"
  | JObj "(pystr \<times> json) list"

datatype error =
    FileNotFoundError
  | UnicodeDecodeError
  | JSONDecodeError
  | TypeError
  | AttributeError
  | SliceDictError
  | UnicodeEncodeError

text \<open>A Record of the specification is a JSON object.\<close>

fun is_record :: "json \<Rightarrow> bool" where
  "is_record (JObj kvs) = True"
| "is_record _ = False"

fun has_key :: "pystr \<Rightarrow> json \<Rightarrow> bool" where
  "has_key k (JObj kvs) = (k \<in> fst ` set kvs)"
| "has_key k _ = False"

section \<open>Python operations the script applies to loaded values\<close>

text \<open>\<^verbatim>\<open>needle in haystack\<close> on two strings: the substring test.\<close>

fun contains_text :: "pystr \<Rightarrow> pystr \<Rightarrow> bool" where
  "contains_text n [] = (n = [])"
| "contains_text n (c # cs) = (prefix n (c # cs) \<or> contains_text n cs)"

text \<open>
  \<^verbatim>\<open>k in x\<close> for a string \<open>k\<close>: key membership on a dict, substring on a string,
  element equality on a list, \<^verbatim>\<open>TypeError\<close> on \<^verbatim>\<open>None\<close>, booleans and numbers.
\<close>

fun py_contains :: "pystr \<Rightarrow> json \<Rightarrow> error + bool" where
  "py_contains k (JObj kvs) = Inr (k \<in> fst ` set kvs)"
| "py_contains k (JStr s) = Inr (contains_text k s)"
| "py_contains k (JArr xs) = Inr (JStr k \<in> set xs)"
| "py_contains k JNull = Inl TypeError"
| "py_contains k (JBool b) = Inl TypeError"
| "py_contains k (JInt i) = Inl TypeError"
| "py_contains k (JFloat f) = Inl TypeError"

text \<open>
  \<^verbatim>\<open>for record in records\<close>: a list yields its elements, a dict its keys, a string its
  characters; the other values are not iterable.
\<close>

fun py_iter :: "json \<Rightarrow> error + json list" where
  "py_iter (JArr xs) = Inr xs"
| "py_iter (JObj kvs) = Inr (map (\<lambda>kv. JStr (fst kv)) kvs)"
| "py_iter (JStr s) = Inr (map (\<lambda>c. JStr [c]) s)"
| "py_iter JNull = Inl TypeError"
| "py_iter (JBool b) = Inl TypeError"
| "py_iter (JInt i) = Inl TypeError"
| "py_iter (JFloat f) = Inl TypeError"

fun py_len :: "json \<Rightarrow> error + nat" where
  "py_len (JArr xs) = Inr (length xs)"
| "py_len (JObj kvs) = Inr (length kvs)"
| "py_len (JStr s) = Inr (length s)"
| "py_len JNull = Inl TypeError"
| "py_len (JBool b) = Inl TypeError"
| "py_len (JInt i) = Inl TypeError"
| "py_len (JFloat f) = Inl TypeError"

text \<open>\<^verbatim>\<open>record.get(k, d)\<close>: only a dict has the method.\<close>

fun py_get :: "json \<Rightarrow> pystr \<Rightarrow> json \<Rightarrow> error + json" where
  "py_get (JObj kvs) k d = Inr (case map_of kvs k of None \<Rightarrow> d | Some v \<Rightarrow> v)"
| "py_get JNull k d = Inl AttributeError"
| "py_get (JBool b) k d = Inl AttributeError"
| "py_get (JInt i) k d = Inl AttributeError"
| "py_get (JFloat f) k d = Inl AttributeError"
| "py_get (JStr s) k d = Inl AttributeError"
| "py_get (JArr xs) k d = Inl AttributeError"

text \<open>
  \<^verbatim>\<open>error[:80]\<close>: the first 80 characters of a string, the first 80 elements of a list.
  \<^verbatim>\<open>None\<close>, booleans and numbers are not subscriptable (\<^verbatim>\<open>TypeError\<close>); a dict
  refuses the slice as a key (\<^verbatim>\<open>TypeError\<close> up to Python 3.11, \<^verbatim>\<open>KeyError\<close> since 3.12).
\<close>

fun py_slice80 :: "json \<Rightarrow> error + json" where
  "py_slice80 (JStr s) = Inr (JStr (take 80 s))"
| "py_slice80 (JArr xs) = Inr (JArr (take 80 xs))"
| "py_slice80 (JObj kvs) = Inl SliceDictError"
| "py_slice80 JNull = Inl TypeError"
| "py_slice80 (JBool b) = Inl TypeError"
| "py_slice80 (JInt i) = Inl TypeError"
| "py_slice80 (JFloat f) = Inl TypeError"

subsection \<open>Decimal numerals and \<^verbatim>\<open>str()\<close>\<close>

fun nat_str :: "nat \<Rightarrow> pystr" where
  "nat_str n = (if n < 10 then [48 + n] else nat_str (n div 10) @ [48 + n mod 10])"

declare nat_str.simps [simp del]

definition int_str :: "int \<Rightarrow> pystr" where
  "int_str i = (if i < 0 then 45 # nat_str (nat (- i)) else nat_str (nat i))"

fun join :: "pystr \<Rightarrow> pystr list \<Rightarrow> pystr" where
  "join sep [] = []"
| "join sep [x] = x"
| "join sep (x # y # ys) = x @ sep @ join sep (y # ys)"

text \<open>
  \<^verbatim>\<open>repr\<close> of a loaded value. \<^verbatim>\<open>repr\<close> of a string chooses its quotes and escapes
  by the Unicode tables of the interpreter; it is the parameter \<open>rs\<close>.
\<close>

fun py_repr :: "(pystr \<Rightarrow> pystr) \<Rightarrow> json \<Rightarrow> pystr" where
  "py_repr rs JNull = ustr ''None''"
| "py_repr rs (JBool b) = (if b then ustr ''True'' else ustr ''False'')"
| "py_repr rs (JInt i) = int_str i"
| "py_repr rs (JFloat f) =
     (if f = ustr ''NaN'' then ustr ''nan''
      else if f = ustr ''Infinity'' then ustr ''inf''
      else if f = ustr ''-Infinity'' then ustr ''-inf''
      else f)"
| "py_repr rs (JStr s) = rs s"
| "py_repr rs (JArr xs) = ustr ''['' @ join (ustr '', '') (map (py_repr rs) xs) @ ustr '']''"
| "py_repr rs (JObj kvs) =
     ustr ''{'' @ join (ustr '', '') (map (\<lambda>kv. rs (fst kv) @ ustr '': '' @ py_repr rs (snd kv)) kvs)
       @ ustr ''}''"

text \<open>\<^verbatim>\<open>{x}\<close> in an f-string: a string as it is, any other value through \<^verbatim>\<open>str()\<close>.\<close>

fun py_format :: "(pystr \<Rightarrow> pystr) \<Rightarrow> json \<Rightarrow> pystr" where
  "py_format rs (JStr s) = s"
| "py_format rs v = py_repr rs v"

section \<open>The steps of the script\<close>

subsection \<open>Partition (lines 15 to 22)\<close>

fun partition_loop :: "json list \<Rightarrow> json list \<Rightarrow> json list \<Rightarrow> error + (json list \<times> json list)" where
  "partition_loop [] valid_records error_records = Inr (valid_records, error_records)"
| "partition_loop (record # rest) valid_records error_records =
     (case py_contains (ustr ''error'') record of
        Inl e \<Rightarrow> Inl e
      | Inr b \<Rightarrow>
          if b then partition_loop rest valid_records (error_records @ [record])
          else partition_loop rest (valid_records @ [record]) error_records)"

definition partition_records :: "json \<Rightarrow> error + (json list \<times> json list)" where
  "partition_records records =
     (case py_iter records of
        Inl e \<Rightarrow> Inl e
      | Inr rs \<Rightarrow> partition_loop rs [] [])"

subsection \<open>Report of the errored records (lines 30 to 35)\<close>

text \<open>
  The bullet of the source line is the three characters U+00E2, U+20AC, U+00A2 between
  three spaces and one space.
\<close>

definition bullet :: pystr where
  "bullet = [32, 32, 32, 226, 8364, 162, 32]"

definition error_line :: "(pystr \<Rightarrow> pystr) \<Rightarrow> json \<Rightarrow> json \<Rightarrow> pystr" where
  "error_line rs asin shown = bullet @ py_format rs asin @ ustr '': '' @ py_format rs shown @ ustr ''...''"

fun report_loop :: "(pystr \<Rightarrow> pystr) \<Rightarrow> json list \<Rightarrow> error + pystr list" where
  "report_loop rs [] = Inr []"
| "report_loop rs (record # rest) =
     (case py_get record (ustr ''asin'') (JStr (ustr ''Unknown'')) of
        Inl e \<Rightarrow> Inl e
      | Inr asin \<Rightarrow>
     (case py_get record (ustr ''error'') (JStr (ustr ''Unknown error'')) of
        Inl e \<Rightarrow> Inl e
      | Inr err \<Rightarrow>
     (case py_slice80 err of
        Inl e \<Rightarrow> Inl e
      | Inr shown \<Rightarrow>
     (case report_loop rs rest of
        Inl e \<Rightarrow> Inl e
      | Inr ls \<Rightarrow> Inr (error_line rs asin shown # ls)))))"

definition report :: "(pystr \<Rightarrow> pystr) \<Rightarrow> json list \<Rightarrow> error + pystr list" where
  "report rs error_records =
     (if error_records = [] then Inr []
      else (case report_loop rs error_records of
              Inl e \<Rightarrow> Inl e
            | Inr ls \<Rightarrow> Inr ((10 # ustr ''ASINs with errors:'') # ls)))"

section \<open>Writing: \<^verbatim>\<open>json.dump(..., ensure_ascii=False, indent=4)\<close> into a UTF-8 file\<close>

text \<open>
  \<^verbatim>\<open>json.encoder.encode_basestring\<close>, the string encoder used when \<^verbatim>\<open>ensure_ascii\<close> is
  false: the quote, the backslash and the characters below U+0020 are escaped, every
  other character is written as it is.
\<close>

definition hex_digit :: "nat \<Rightarrow> nat" where
  "hex_digit d = (if d < 10 then 48 + d else 87 + d)"

definition escape_char :: "nat \<Rightarrow> pystr" where
  "escape_char c =
     (if c = 34 then [92, 34]
      else if c = 92 then [92, 92]
      else if c = 10 then [92, 110]
      else if c = 13 then [92, 114]
      else if c = 9 then [92, 116]
      else if c = 8 then [92, 98]
      else if c = 12 then [92, 102]
      else if c < 32 then [92, 117, 48, 48, hex_digit (c div 16), hex_digit (c mod 16)]
      else [c])"

definition encode_basestring :: "pystr \<Rightarrow> pystr" where
  "encode_basestring s = 34 # concat (map escape_char s) @ [34]"

text \<open>A line break followed by the indentation of a nesting level: four spaces per level.\<close>

definition newline_indent :: "nat \<Rightarrow> pystr" where
  "newline_indent level = 10 # replicate (4 * level) 32"

text \<open>
  \<^verbatim>\<open>json.encoder._make_iterencode\<close> with \<^verbatim>\<open>indent=4\<close>: the item separator is a comma
  followed by the line break and indentation, the key separator is a colon and a space,
  an empty list or dict is written without a line break. The chunks are concatenated.
\<close>

fun iterencode :: "nat \<Rightarrow> json \<Rightarrow> pystr" where
  "iterencode level JNull = ustr ''null''"
| "iterencode level (JBool b) = (if b then ustr ''true'' else ustr ''false'')"
| "iterencode level (JInt i) = int_str i"
| "iterencode level (JFloat f) = f"
| "iterencode level (JStr s) = encode_basestring s"
| "iterencode level (JArr xs) =
     (if xs = [] then ustr ''[]''
      else ustr ''['' @ newline_indent (Suc level)
           @ join (44 # newline_indent (Suc level)) (map (iterencode (Suc level)) xs)
           @ newline_indent level @ ustr '']'')"
| "iterencode level (JObj kvs) =
     (if kvs = [] then ustr ''{}''
      else ustr ''{'' @ newline_indent (Suc level)
           @ join (44 # newline_indent (Suc level))
               (map (\<lambda>kv. encode_basestring (fst kv) @ ustr '': '' @ iterencode (Suc level) (snd kv)) kvs)
           @ newline_indent level @ ustr ''}'')"

definition dumps :: "json \<Rightarrow> pystr" where
  "dumps v = iterencode 0 v"

text \<open>
  The UTF-8 codec in strict mode. A surrogate code point cannot be encoded: the write
  raises \<^verbatim>\<open>UnicodeEncodeError\<close>. A Python string holds no code point from U+110000 on.
\<close>

definition utf8_char :: "nat \<Rightarrow> error + nat list" where
  "utf8_char c =
     (if c < 128 then Inr [c]
      else if c < 2048 then Inr [192 + c div 64, 128 + c mod 64]
      else if c < 65536 then
        (if 55296 \<le> c \<and> c \<le> 57343 then Inl UnicodeEncodeError
         else Inr [224 + c div 4096, 128 + c div 64 mod 64, 128 + c mod 64])
      else if c < 1114112 then
        Inr [240 + c div 262144, 128 + c div 4096 mod 64, 128 + c div 64 mod 64, 128 + c mod 64]
      else Inl UnicodeEncodeError)"

fun utf8_encode :: "pystr \<Rightarrow> error + nat list" where
  "utf8_encode [] = Inr []"
| "utf8_encode (c # cs) =
     (case utf8_char c of
        Inl e \<Rightarrow> Inl e
      | Inr bs \<Rightarrow> (case utf8_encode cs of Inl e \<Rightarrow> Inl e | Inr rest \<Rightarrow> Inr (bs @ rest)))"

text \<open>
  The files of the working directory: a path has the bytes of a regular file, or nothing.
  Directories, permissions and full disks are not part of the model, and line breaks are
  written as they are (the POSIX setting of text mode).
\<close>

type_synonym files = "string \<Rightarrow> nat list option"

definition input_file :: string where
  "input_file = ''amazon_results.json''"

definition output_file :: string where
  "output_file = ''amazon_results_cleaned.json''"

definition backup_file :: string where
  "backup_file = ''amazon_results_new_backup.json''"

text \<open>\<^verbatim>\<open>with open(path, 'w', encoding='utf-8') as f: json.dump(v, f, ensure_ascii=False, indent=4)\<close>\<close>

definition dump_to_file :: "files \<Rightarrow> string \<Rightarrow> json \<Rightarrow> error + files" where
  "dump_to_file fs path v =
     (case utf8_encode (dumps v) of
        Inl e \<Rightarrow> Inl e
      | Inr bytes \<Rightarrow> Inr (fs(path \<mapsto> bytes)))"

text \<open>Lines 38 to 40: the cleaned file.\<close>

definition writeCleaned :: "files \<Rightarrow> json list \<Rightarrow> error + files" where
  "writeCleaned fs valid_records = dump_to_file fs output_file (JArr valid_records)"

text \<open>Lines 45 to 50: the backup, with the line it prints.\<close>

definition maybeBackup :: "files \<Rightarrow> json \<Rightarrow> error + (files \<times> pystr list)" where
  "maybeBackup fs records =
     (if fs backup_file \<noteq> None then Inr (fs, [])
      else (case dump_to_file fs backup_file records of
              Inl e \<Rightarrow> Inl e
            | Inr fs' \<Rightarrow> Inr (fs', [ustr ''Backup created: '' @ ustr backup_file])))"

section \<open>Reading: \<^verbatim>\<open>json.load\<close> from a UTF-8 file\<close>

definition cons_res :: "'a \<Rightarrow> error + 'a list \<Rightarrow> error + 'a list" where
  "cons_res c r = (case r of Inl e \<Rightarrow> Inl e | Inr cs \<Rightarrow> Inr (c # cs))"

definition continuation :: "nat \<Rightarrow> bool" where
  "continuation b = (128 \<le> b \<and> b < 192)"

text \<open>
  Strict UTF-8 decoding: overlong forms, surrogates, values from U+110000 on, stray and
  missing continuation bytes raise \<^verbatim>\<open>UnicodeDecodeError\<close>.
\<close>

fun utf8_decode :: "nat list \<Rightarrow> error + pystr" where
  "utf8_decode [] = Inr []"
| "utf8_decode (b # bs) =
     (if b < 128 then cons_res b (utf8_decode bs)
      else if 192 \<le> b \<and> b < 224 then
        (case bs of
           b1 # r \<Rightarrow>
             (let c = (b - 192) * 64 + (b1 - 128) in
              if continuation b1 \<and> 128 \<le> c then cons_res c (utf8_decode r)
              else Inl UnicodeDecodeError)
         | _ \<Rightarrow> Inl UnicodeDecodeError)
      else if 224 \<le> b \<and> b < 240 then
        (case bs of
           b1 # b2 # r \<Rightarrow>
             (let c = ((b - 224) * 64 + (b1 - 128)) * 64 + (b2 - 128) in
              if continuation b1 \<and> continuation b2 \<and> 2048 \<le> c \<and> \<not> (55296 \<le> c \<and> c \<le> 57343)
              then cons_res c (utf8_decode r)
              else Inl UnicodeDecodeError)
         | _ \<Rightarrow> Inl UnicodeDecodeError)
      else if 240 \<le> b \<and> b < 248 then
        (case bs of
           b1 # b2 # b3 # r \<Rightarrow>
             (let c = (((b - 240) * 64 + (b1 - 128)) * 64 + (b2 - 128)) * 64 + (b3 - 128) in
              if continuation b1 \<and> continuation b2 \<and> continuation b3 \<and> 65536 \<le> c \<and> c < 1114112
              then cons_res c (utf8_decode r)
              else Inl UnicodeDecodeError)
         | _ \<Rightarrow> Inl UnicodeDecodeError)
      else Inl UnicodeDecodeError)"

text \<open>Text mode on reading: \<^verbatim>\<open>\r\n\<close> and a lone \<^verbatim>\<open>\r\<close> become \<^verbatim>\<open>\n\<close>.\<close>

fun universal_newlines :: "pystr \<Rightarrow> pystr" where
  "universal_newlines [] = []"
| "universal_newlines [c] = (if c = 13 then [10] else [c])"
| "universal_newlines (c # d # r) =
     (if c = 13 \<and> d = 10 then 10 # universal_newlines r
      else if c = 13 then 10 # universal_newlines (d # r)
      else c # universal_newlines (d # r))"

subsection \<open>The scanner of \<^verbatim>\<open>json.decoder\<close>\<close>

definition is_ws :: "nat \<Rightarrow> bool" where
  "is_ws c = (c = 32 \<or> c = 9 \<or> c = 10 \<or> c = 13)"

definition skip_ws :: "pystr \<Rightarrow> pystr" where
  "skip_ws s = dropWhile is_ws s"

definition hexval :: "nat \<Rightarrow> nat option" where
  "hexval c =
     (if 48 \<le> c \<and> c \<le> 57 then Some (c - 48)
      else if 97 \<le> c \<and> c \<le> 102 then Some (c - 87)
      else if 65 \<le> c \<and> c \<le> 70 then Some (c - 55)
      else None)"

fun hex4 :: "pystr \<Rightarrow> (nat \<times> pystr) option" where
  "hex4 (a # b # c # d # r) =
     (case hexval a of None \<Rightarrow> None | Some x \<Rightarrow>
      case hexval b of None \<Rightarrow> None | Some y \<Rightarrow>
      case hexval c of None \<Rightarrow> None | Some z \<Rightarrow>
      case hexval d of None \<Rightarrow> None | Some w \<Rightarrow> Some (((x * 16 + y) * 16 + z) * 16 + w, r))"
| "hex4 _ = None"

text \<open>The one-letter escapes after a backslash.\<close>

definition unescape :: "nat \<Rightarrow> nat option" where
  "unescape e =
     (if e = 34 then Some 34
      else if e = 92 then Some 92
      else if e = 47 then Some 47
      else if e = 98 then Some 8
      else if e = 102 then Some 12
      else if e = 110 then Some 10
      else if e = 114 then Some 13
      else if e = 116 then Some 9
      else None)"

definition cons_str :: "nat \<Rightarrow> error + (pystr \<times> pystr) \<Rightarrow> error + (pystr \<times> pystr)" where
  "cons_str c r = (case r of Inl e \<Rightarrow> Inl e | Inr (cs, rest) \<Rightarrow> Inr (c # cs, rest))"

text \<open>
  \<^verbatim>\<open>scanstring\<close> in strict mode, started after the opening quote: it returns the string
  and the input after the closing quote. A high surrogate escape followed by a low
  surrogate escape is one character; a control character in the string is an error.
\<close>

function scanstring :: "pystr \<Rightarrow> error + (pystr \<times> pystr)" where
  "scanstring s =
     (case s of
        [] \<Rightarrow> Inl JSONDecodeError
      | c # r \<Rightarrow>
          if c = 34 then Inr ([], r)
          else if c = 92 then
            (case r of
               [] \<Rightarrow> Inl JSONDecodeError
             | e # r1 \<Rightarrow>
                 if e = 117 then
                   (case hex4 r1 of
                      None \<Rightarrow> Inl JSONDecodeError
                    | Some (uni, r2) \<Rightarrow>
                        if 55296 \<le> uni \<and> uni \<le> 56319 \<and> prefix [92, 117] r2 then
                          (case hex4 (drop 2 r2) of
                             None \<Rightarrow> Inl JSONDecodeError
                           | Some (uni2, r3) \<Rightarrow>
                               if 56320 \<le> uni2 \<and> uni2 \<le> 57343
                               then cons_str (65536 + (uni - 55296) * 1024 + (uni2 - 56320)) (scanstring r3)
                               else cons_str uni (scanstring r2))
                        else cons_str uni (scanstring r2))
                 else
                   (case unescape e of
                      None \<Rightarrow> Inl JSONDecodeError
                    | Some ch \<Rightarrow> cons_str ch (scanstring r1)))
          else if c < 32 then Inl JSONDecodeError
          else cons_str c (scanstring r))"
  by pat_completeness auto

lemma hex4_length: "hex4 s = Some (u, r) \<Longrightarrow> length s = length r + 4"
  by (induction s rule: hex4.induct) (auto split: option.splits)

termination scanstring
proof (relation "measure length", goal_cases)
  case 1
  show ?case by simp
next
  case (2 s c r e r1 x uni r2 x2 uni2 r3)
  then show ?case using hex4_length [of r1 uni r2] hex4_length [of "drop 2 r2" uni2 r3] by simp
next
  case (3 s c r e r1 x uni r2 x2 uni2 r3)
  then show ?case using hex4_length [of r1 uni r2] by simp
next
  case (4 s c r e r1 x uni r2)
  then show ?case using hex4_length [of r1 uni r2] by simp
next
  case (5 s c r e r1 ch)
  then show ?case by simp
next
  case (6 s c r)
  then show ?case by simp
qed

declare scanstring.simps [simp del]


text \<open>
  Numbers: the pattern \<^verbatim>\<open>(-?(?:0|[1-9][0-9]*))(\.[0-9]+)?([eE][-+]?[0-9]+)?\<close>, matched
  as far as it goes. \<open>match_int\<close>, \<open>match_frac\<close> and \<open>match_exp\<close> return the matched text
  and the input after it.
\<close>

definition is_digit :: "nat \<Rightarrow> bool" where
  "is_digit c = (48 \<le> c \<and> c \<le> 57)"

definition match_digits :: "pystr \<Rightarrow> (pystr \<times> pystr) option" where
  "match_digits s =
     (case s of
        [] \<Rightarrow> None
      | d # t \<Rightarrow> if is_digit d then Some (takeWhile is_digit s, dropWhile is_digit s) else None)"

definition match_int :: "pystr \<Rightarrow> (pystr \<times> pystr) option" where
  "match_int s =
     (let sign = (case s of c # t \<Rightarrow> if c = 45 then [45] else [] | [] \<Rightarrow> []);
          s1 = drop (length sign) s
      in case s1 of
           [] \<Rightarrow> None
         | d # t \<Rightarrow>
             if d = 48 then Some (sign @ [48], t)
             else if is_digit d then Some (sign @ takeWhile is_digit s1, dropWhile is_digit s1)
             else None)"

definition match_frac :: "pystr \<Rightarrow> (pystr \<times> pystr) option" where
  "match_frac s =
     (case s of
        [] \<Rightarrow> None
      | c # t \<Rightarrow>
          if c = 46 then
            (case match_digits t of None \<Rightarrow> None | Some (ds, r) \<Rightarrow> Some (46 # ds, r))
          else None)"

definition match_exp :: "pystr \<Rightarrow> (pystr \<times> pystr) option" where
  "match_exp s =
     (case s of
        [] \<Rightarrow> None
      | e # t \<Rightarrow>
          if e = 101 \<or> e = 69 then
            (let sign = (case t of c # u \<Rightarrow> if c = 43 \<or> c = 45 then [c] else [] | [] \<Rightarrow> [])
             in case match_digits (drop (length sign) t) of
                  None \<Rightarrow> None
                | Some (ds, r) \<Rightarrow> Some (e # sign @ ds, r))
          else None)"

text \<open>\<^verbatim>\<open>int(text)\<close> for an optional minus sign followed by decimal digits.\<close>

definition digits_val :: "pystr \<Rightarrow> nat" where
  "digits_val ds = foldl (\<lambda>a c. 10 * a + (c - 48)) 0 ds"

definition int_of_text :: "pystr \<Rightarrow> int" where
  "int_of_text t =
     (case t of
        [] \<Rightarrow> 0
      | c # ds \<Rightarrow> if c = 45 then - int (digits_val ds) else int (digits_val t))"

text \<open>
  A number with a fraction or an exponent is a float: \<open>fc\<close> gives the text that
  \<^verbatim>\<open>json.dump\<close> prints for \<^verbatim>\<open>float(literal)\<close>.
\<close>

definition match_number :: "(pystr \<Rightarrow> pystr) \<Rightarrow> pystr \<Rightarrow> (json \<times> pystr) option" where
  "match_number fc s =
     (case match_int s of
        None \<Rightarrow> None
      | Some (integer, r) \<Rightarrow>
          (let (frac, r1) = (case match_frac r of None \<Rightarrow> ([], r) | Some (f, r') \<Rightarrow> (f, r'));
               (exp, r2) = (case match_exp r1 of None \<Rightarrow> ([], r1) | Some (x, r') \<Rightarrow> (x, r'))
           in if frac = [] \<and> exp = [] then Some (JInt (int_of_text integer), r2)
              else Some (JFloat (fc (integer @ frac @ exp)), r2)))"

text \<open>
  A dict built from the pairs of an object: a repeated key keeps its first position and
  takes the last value.
\<close>

fun dict_set :: "pystr \<Rightarrow> json \<Rightarrow> (pystr \<times> json) list \<Rightarrow> (pystr \<times> json) list" where
  "dict_set k v [] = [(k, v)]"
| "dict_set k v ((k', v') # kvs) = (if k' = k then (k, v) # kvs else (k', v') # dict_set k v kvs)"

definition dict_of_pairs :: "(pystr \<times> json) list \<Rightarrow> (pystr \<times> json) list" where
  "dict_of_pairs pairs = foldl (\<lambda>d kv. dict_set (fst kv) (snd kv) d) [] pairs"

text \<open>
  The words the scanner knows. Non-finite floats are kept under the names \<^verbatim>\<open>json.dump\<close>
  writes them with.
\<close>

definition scan_word :: "pystr \<Rightarrow> (json \<times> pystr) option" where
  "scan_word s =
     (if prefix (ustr ''NaN'') s then Some (JFloat (ustr ''NaN''), drop 3 s)
      else if prefix (ustr ''Infinity'') s then Some (JFloat (ustr ''Infinity''), drop 8 s)
      else if prefix (ustr ''-Infinity'') s then Some (JFloat (ustr ''-Infinity''), drop 9 s)
      else None)"

text \<open>
  \<^verbatim>\<open>scan_once\<close>, \<^verbatim>\<open>JSONArray\<close> and \<^verbatim>\<open>JSONObject\<close>. \<open>scan_array\<close> stands at the start of
  an element with the elements read so far, \<open>scan_object\<close> at the opening quote of a key
  with the pairs read so far. The two comparisons of lengths serve the termination proof
  only: \<open>scan_once_shorter\<close> shows that they hold whenever they are evaluated.
\<close>

function scan_once :: "(pystr \<Rightarrow> pystr) \<Rightarrow> pystr \<Rightarrow> error + (json \<times> pystr)"
  and scan_array :: "(pystr \<Rightarrow> pystr) \<Rightarrow> json list \<Rightarrow> pystr \<Rightarrow> error + (json \<times> pystr)"
  and scan_object :: "(pystr \<Rightarrow> pystr) \<Rightarrow> (pystr \<times> json) list \<Rightarrow> pystr \<Rightarrow> error + (json \<times> pystr)"
where
  "scan_once fc s =
     (case s of
        [] \<Rightarrow> Inl JSONDecodeError
      | c # r \<Rightarrow>
          if c = 34 then
            (case scanstring r of Inl e \<Rightarrow> Inl e | Inr (str, r') \<Rightarrow> Inr (JStr str, r'))
          else if c = 123 then
            (case skip_ws r of
               [] \<Rightarrow> Inl JSONDecodeError
             | d # r' \<Rightarrow>
                 if d = 125 then Inr (JObj [], r')
                 else scan_object fc [] (skip_ws r))
          else if c = 91 then
            (case skip_ws r of
               [] \<Rightarrow> Inl JSONDecodeError
             | d # r' \<Rightarrow>
                 if d = 93 then Inr (JArr [], r')
                 else scan_array fc [] (skip_ws r))
          else if prefix (ustr ''null'') s then Inr (JNull, drop 4 s)
          else if prefix (ustr ''true'') s then Inr (JBool True, drop 4 s)
          else if prefix (ustr ''false'') s then Inr (JBool False, drop 5 s)
          else
            (case match_number fc s of
               Some res \<Rightarrow> Inr res
             | None \<Rightarrow> (case scan_word s of Some res \<Rightarrow> Inr res | None \<Rightarrow> Inl JSONDecodeError)))"
| "scan_array fc acc s =
     (case scan_once fc s of
        Inl e \<Rightarrow> Inl e
      | Inr (v, r) \<Rightarrow>
          (case skip_ws r of
             [] \<Rightarrow> Inl JSONDecodeError
           | c # r' \<Rightarrow>
               if c = 93 then Inr (JArr (acc @ [v]), r')
               else if c = 44 \<and> length r' < length s then scan_array fc (acc @ [v]) (skip_ws r')
               else Inl JSONDecodeError))"
| "scan_object fc pairs s =
     (case s of
        [] \<Rightarrow> Inl JSONDecodeError
      | q # t \<Rightarrow>
          if q \<noteq> 34 then Inl JSONDecodeError
          else
            (case scanstring t of
               Inl e \<Rightarrow> Inl e
             | Inr (key, r) \<Rightarrow>
                 (case skip_ws r of
                    [] \<Rightarrow> Inl JSONDecodeError
                  | c # r1 \<Rightarrow>
                      if c \<noteq> 58 \<or> \<not> length r1 < length s then Inl JSONDecodeError
                      else
                        (case scan_once fc (skip_ws r1) of
                           Inl e \<Rightarrow> Inl e
                         | Inr (v, r2) \<Rightarrow>
                             (case skip_ws r2 of
                                [] \<Rightarrow> Inl JSONDecodeError
                              | d # r3 \<Rightarrow>
                                  if d = 125 then Inr (JObj (dict_of_pairs (pairs @ [(key, v)])), r3)
                                  else if d = 44 \<and> length r3 < length s
                                  then scan_object fc (pairs @ [(key, v)]) (skip_ws r3)
                                  else Inl JSONDecodeError)))))"
  by pat_completeness auto

lemma skip_ws_length: "length (skip_ws s) \<le> length s"
  by (simp add: skip_ws_def length_dropWhile_le)

termination scan_once
proof (relation "measure (\<lambda>x. case x of
            Inl (fc, s) \<Rightarrow> 2 * length s
          | Inr (Inl (fc, acc, s)) \<Rightarrow> 2 * length s + 1
          | Inr (Inr (fc, pairs, s)) \<Rightarrow> 2 * length s + 1)", goal_cases)
  case 1
  show ?case by simp
next
  case (2 fc s c r d r')
  then show ?case using skip_ws_length [of r] by simp
next
  case (3 fc s c r d r')
  then show ?case using skip_ws_length [of r] by simp
next
  case (4 fc acc s)
  then show ?case by simp
next
  case (5 fc acc s x v r c r')
  then show ?case using skip_ws_length [of r'] by simp
next
  case (6 fc pairs s q t x key r c r1)
  then show ?case using skip_ws_length [of r1] by simp
next
  case (7 fc pairs s q t x key r c r1 y v r2 d r3)
  then show ?case using skip_ws_length [of r3] by simp
qed

declare scan_once.simps [simp del] scan_array.simps [simp del] scan_object.simps [simp del]

text \<open>
  \<^verbatim>\<open>json.loads\<close> on the text of the file: a byte order mark is refused, white space
  around the value is skipped, anything after it is an error.
\<close>

definition loads :: "(pystr \<Rightarrow> pystr) \<Rightarrow> pystr \<Rightarrow> error + json" where
  "loads fc s =
     (if prefix [65279] s then Inl JSONDecodeError
      else (case scan_once fc (skip_ws s) of
              Inl e \<Rightarrow> Inl e
            | Inr (v, r) \<Rightarrow> if skip_ws r = [] then Inr v else Inl JSONDecodeError))"

text \<open>Lines 9 and 10: \<^verbatim>\<open>with open(input_file, 'r', encoding='utf-8') as f: records = json.load(f)\<close>\<close>

definition load :: "(pystr \<Rightarrow> pystr) \<Rightarrow> files \<Rightarrow> string \<Rightarrow> error + json" where
  "load fc fs path =
     (case fs path of
        None \<Rightarrow> Inl FileNotFoundError
      | Some bytes \<Rightarrow>
          (case utf8_decode bytes of
             Inl e \<Rightarrow> Inl e
           | Inr t \<Rightarrow> loads fc (universal_newlines t)))"


section \<open>The whole run\<close>

text \<open>
  The script from its first line to its last: the files after the run and the lines it
  printed, or the exception that stopped it. \<open>fc\<close> and \<open>rs\<close> are the two functions of
  the interpreter left open: the printed form of a float literal and \<^verbatim>\<open>repr\<close> of a string.
\<close>

definition main :: "(pystr \<Rightarrow> pystr) \<Rightarrow> (pystr \<Rightarrow> pystr) \<Rightarrow> files \<Rightarrow> error + (files \<times> pystr list)" where
  "main fc rs fs =
     (case load fc fs input_file of Inl e \<Rightarrow> Inl e | Inr records \<Rightarrow>
      case py_len records of Inl e \<Rightarrow> Inl e | Inr n \<Rightarrow>
      case partition_records records of Inl e \<Rightarrow> Inl e | Inr (valid_records, error_records) \<Rightarrow>
      case report rs error_records of Inl e \<Rightarrow> Inl e | Inr listing \<Rightarrow>
      case writeCleaned fs valid_records of Inl e \<Rightarrow> Inl e | Inr fs1 \<Rightarrow>
      case maybeBackup fs1 records of Inl e \<Rightarrow> Inl e | Inr (fs2, backup_note) \<Rightarrow>
        Inr (fs2,
          [ustr '' Loading '' @ ustr input_file @ ustr ''...'',
           ustr ''Total records before cleaning: '' @ nat_str n,
           10 # ustr '' Statistics:'',
           ustr '' Valid records: '' @ nat_str (length valid_records),
           ustr '' Records with errors: '' @ nat_str (length error_records)]
          @ listing
          @ [10 # ustr ''Saving cleaned data to '' @ ustr output_file @ ustr ''...'',
             ustr ''Cleaned file saved!'',
             ustr ''Total records in cleaned file: '' @ nat_str (length valid_records)]
          @ backup_note))"


section \<open>Notions of the specification\<close>

text \<open>The value a record holds under a key, if any.\<close>

fun field :: "pystr \<Rightarrow> json \<Rightarrow> json option" where
  "field k (JObj kvs) = map_of kvs k"
| "field k _ = None"




fun is_string :: "json \<Rightarrow> bool" where
  "is_string (JStr s) = True"
| "is_string _ = False"

text \<open>
  A scalar value is a code point that UTF-8 can encode: below U+110000 and not a
  surrogate. A value is encodable when all its strings, keys and float texts consist of
  scalar values.
\<close>

definition scalar :: "nat \<Rightarrow> bool" where
  "scalar c = (c < 55296 \<or> (57343 < c \<and> c < 1114112))"

fun encodable :: "json \<Rightarrow> bool" where
  "encodable JNull = True"
| "encodable (JBool b) = True"
| "encodable (JInt i) = True"
| "encodable (JFloat f) = list_all scalar f"
| "encodable (JStr s) = list_all scalar s"
| "encodable (JArr xs) = list_all encodable xs"
| "encodable (JObj kvs) = list_all (\<lambda>kv. list_all scalar (fst kv) \<and> encodable (snd kv)) kvs"


text \<open>
  What follows a value in the output of \<open>iterencode\<close>: nothing, a comma or a line break.
\<close>

definition value_end :: "pystr \<Rightarrow> bool" where
  "value_end r = (case r of [] \<Rightarrow> True | c # _ \<Rightarrow> c = 44 \<or> c = 10)"

text \<open>
  The assumption made on a float: the text printed for it is read back as the same float
  (what \<^verbatim>\<open>float.__repr__\<close> guarantees), and holds no carriage return.
\<close>

definition float_rereads :: "(pystr \<Rightarrow> pystr) \<Rightarrow> pystr \<Rightarrow> bool" where
  "float_rereads fc f =
     ((\<forall>r. value_end r \<longrightarrow> scan_once fc (f @ r) = Inr (JFloat f, r)) \<and> 13 \<notin> set f)"

text \<open>
  The values \<^verbatim>\<open>json.load\<close> can produce: the keys of a dict are distinct, and every float
  is re-read as itself.
\<close>

fun loadable :: "(pystr \<Rightarrow> pystr) \<Rightarrow> json \<Rightarrow> bool" where
  "loadable fc JNull = True"
| "loadable fc (JBool b) = True"
| "loadable fc (JInt i) = True"
| "loadable fc (JFloat f) = float_rereads fc f"
| "loadable fc (JStr s) = True"
| "loadable fc (JArr xs) = list_all (loadable fc) xs"
| "loadable fc (JObj kvs) = (distinct (map fst kvs) \<and> list_all (\<lambda>kv. loadable fc (snd kv)) kvs)"

text \<open>The characters a JSON value can start with.\<close>

definition value_start :: "nat \<Rightarrow> bool" where
  "value_start c =
     (c = 34 \<or> c = 123 \<or> c = 91 \<or> c = 110 \<or> c = 116 \<or> c = 102 \<or> c = 45 \<or> is_digit c
      \<or> c = 78 \<or> c = 73)"


section \<open>The partition\<close>

lemma partition_loop_records:
  "\<forall>r\<in>set rs. is_record r \<Longrightarrow>
   partition_loop rs v e =
     Inr (v @ filter (\<lambda>r. \<not> has_key (ustr ''error'') r) rs, e @ filter (has_key (ustr ''error'')) rs)"
proof (induction rs arbitrary: v e)
  case Nil
  then show ?case by simp
next
  case (Cons r rs)
  then obtain kvs where r: "r = JObj kvs" by (cases r) auto
  from Cons show ?case by (simp add: r)
qed

lemma partition_loop_Inr:
  "partition_loop rs v e = Inr (v', e') \<Longrightarrow>
   v' = v @ filter (\<lambda>r. py_contains (ustr ''error'') r = Inr False) rs \<and>
   e' = e @ filter (\<lambda>r. py_contains (ustr ''error'') r = Inr True) rs"
proof (induction rs arbitrary: v e)
  case Nil
  then show ?case by simp
next
  case (Cons r rs)
  show ?case
  proof (cases "py_contains (ustr ''error'') r")
    case (Inl x)
    with Cons.prems show ?thesis by simp
  next
    case (Inr b)
    show ?thesis
    proof (cases b)
      case True
      with Inr Cons.prems have "partition_loop rs v (e @ [r]) = Inr (v', e')" by simp
      from Cons.IH [OF this] Inr True show ?thesis by simp
    next
      case False
      with Inr Cons.prems have "partition_loop rs (v @ [r]) e = Inr (v', e')" by simp
      from Cons.IH [OF this] Inr False show ?thesis by simp
    qed
  qed
qed

lemma subseq_filter_left: "subseq (filter P xs) xs"
  by (induction xs) auto

lemma py_get_field: "is_record r \<Longrightarrow> py_get r k d = Inr (case field k r of None \<Rightarrow> d | Some v \<Rightarrow> v)"
  by (cases r) auto

lemma errored_has_error:
  assumes "partition_records records = Inr (valid, errored)" and "r \<in> set errored"
  shows "py_contains (ustr ''error'') r = Inr True"
proof -
  from assms(1) obtain rs where "partition_loop rs [] [] = Inr (valid, errored)"
    by (auto simp: partition_records_def split: sum.splits)
  from partition_loop_Inr [OF this] assms(2) show ?thesis by simp
qed

text \<open>
  Claim C1. For every Dataset \<open>D\<close> (a sequence of Records) the partition returns two
  sequences \<open>valid\<close> and \<open>errored\<close> that are sub-sequences of \<open>D\<close> in \<open>D\<close>'s order, have
  no Record in common, have lengths that add up to the length of \<open>D\<close>, and together hold
  exactly the Records of \<open>D\<close>, each as often as \<open>D\<close> does.
\<close>

theorem partition_stable_split:
  assumes "\<forall>r\<in>set D. is_record r"
  shows "\<exists>valid errored. partition_records (JArr D) = Inr (valid, errored) \<and>
     subseq valid D \<and> subseq errored D \<and>
     length valid + length errored = length D \<and>
     set valid \<inter> set errored = {} \<and> set valid \<union> set errored = set D \<and>
     mset valid + mset errored = mset D"
proof -
  let ?E = "has_key (ustr ''error'')"
  have p: "partition_records (JArr D) = Inr (filter (\<lambda>r. \<not> ?E r) D, filter ?E D)"
    using partition_loop_records [OF assms, of "[]" "[]"] by (simp add: partition_records_def)
  have l: "length (filter (\<lambda>r. \<not> ?E r) D) + length (filter ?E D) = length D"
    using sum_length_filter_compl [of ?E D] by simp
  have m: "mset (filter (\<lambda>r. \<not> ?E r) D) + mset (filter ?E D) = mset D"
    by (induction D) auto
  show ?thesis
    using p l m by (auto simp: subseq_filter_left)
qed

theorem partition_stable_split_witness:
  "list_all is_record [JObj [(ustr ''asin'', JStr (ustr ''A1''))],
               JObj [(ustr ''asin'', JStr (ustr ''A2'')), (ustr ''error'', JNull)]] \<and>
   (\<exists>valid errored.
      partition_records (JArr [JObj [(ustr ''asin'', JStr (ustr ''A1''))],
               JObj [(ustr ''asin'', JStr (ustr ''A2'')), (ustr ''error'', JNull)]]) = Inr (valid, errored) \<and>
      length valid + length errored = 2)"
proof -
  let ?D = "[JObj [(ustr ''asin'', JStr (ustr ''A1''))],
             JObj [(ustr ''asin'', JStr (ustr ''A2'')), (ustr ''error'', JNull)]]"
  have h: "\<forall>r\<in>set ?D. is_record r" by simp
  from partition_stable_split [OF h] obtain valid errored where
    "partition_records (JArr ?D) = Inr (valid, errored)" "length valid + length errored = length ?D"
    by blast
  with h show ?thesis by simp
qed

text \<open>
  Claim C2. A Record is put in \<open>errored\<close> if and only if it has a key named \<^verbatim>\<open>error\<close>,
  whatever the value under it (the test \<open>has_key\<close> reads the keys only, so an empty
  string or \<^verbatim>\<open>null\<close> there counts); a Record without the key is put in \<open>valid\<close>,
  whatever its other fields.
\<close>

theorem classified_by_error_key:
  assumes "\<forall>r\<in>set D. is_record r"
  shows "partition_records (JArr D) =
           Inr (filter (\<lambda>r. \<not> has_key (ustr ''error'') r) D, filter (has_key (ustr ''error'')) D) \<and>
         has_key (ustr ''error'') (JObj ((ustr ''error'', v) # kvs)) \<and>
         (ustr ''error'' \<notin> fst ` set kvs' \<longrightarrow> \<not> has_key (ustr ''error'') (JObj kvs'))"
  using partition_loop_records [OF assms, of "[]" "[]"] by (simp add: partition_records_def)

theorem classified_by_error_key_witness:
  "list_all is_record [JObj [(ustr ''error'', JStr [])], JObj [(ustr ''title'', JNull)]] \<and>
   partition_records (JArr [JObj [(ustr ''error'', JStr [])], JObj [(ustr ''title'', JNull)]]) =
     Inr ([JObj [(ustr ''title'', JNull)]], [JObj [(ustr ''error'', JStr [])]])"
proof -
  let ?D = "[JObj [(ustr ''error'', JStr [])], JObj [(ustr ''title'', JNull)]]"
  have h: "\<forall>r\<in>set ?D. is_record r" by simp
  have "partition_records (JArr ?D) =
          Inr (filter (\<lambda>r. \<not> has_key (ustr ''error'') r) ?D, filter (has_key (ustr ''error'')) ?D)"
    using classified_by_error_key [OF h, of JNull "[]" "[]"] by blast
  with h show ?thesis by (simp add: ustr_def)
qed

text \<open>
  Claim C10. The fallback \<^verbatim>\<open>Unknown error\<close> is never what \<^verbatim>\<open>record.get('error', ...)\<close>
  returns for a record the partition put in \<open>errored\<close>: the result does not depend on the
  default, and for a Record it is the value stored under \<^verbatim>\<open>error\<close>.
\<close>

theorem unknown_error_unreachable:
  assumes "partition_records records = Inr (valid, errored)" and "r \<in> set errored"
  shows "py_get r (ustr ''error'') d = py_get r (ustr ''error'') d' \<and>
         (is_record r \<longrightarrow> (\<exists>v. field (ustr ''error'') r = Some v \<and> py_get r (ustr ''error'') d = Inr v))"
proof (cases r)
  case (JObj kvs)
  from errored_has_error [OF assms] JObj have "ustr ''error'' \<in> fst ` set kvs" by simp
  then obtain v where "map_of kvs (ustr ''error'') = Some v"
    by (metis domD dom_map_of_conv_image_fst)
  then show ?thesis using JObj by simp
qed simp_all

theorem unknown_error_unreachable_witness:
  "partition_records (JArr [JObj [(ustr ''error'', JNull)]]) = Inr ([], [JObj [(ustr ''error'', JNull)]]) \<and>
   JObj [(ustr ''error'', JNull)] \<in> set [JObj [(ustr ''error'', JNull)]] \<and>
   py_get (JObj [(ustr ''error'', JNull)]) (ustr ''error'') (JStr (ustr ''Unknown error'')) = Inr JNull"
proof -
  let ?r = "JObj [(ustr ''error'', JNull)]"
  have h1: "partition_records (JArr [?r]) = Inr ([], [?r])"
    by (simp add: partition_records_def)
  have h2: "?r \<in> set [?r]" by simp
  from unknown_error_unreachable [OF h1 h2, of "JStr (ustr ''Unknown error'')" "JStr (ustr ''Unknown error'')"]
  have "\<exists>v. field (ustr ''error'') ?r = Some v \<and>
            py_get ?r (ustr ''error'') (JStr (ustr ''Unknown error'')) = Inr v"
    by simp
  then have "py_get ?r (ustr ''error'') (JStr (ustr ''Unknown error'')) = Inr JNull" by simp
  with h1 h2 show ?thesis by blast
qed

section \<open>The report\<close>











section \<open>Writing the cleaned file and the backup\<close>

subsection \<open>Encodable values are written\<close>

lemma utf8_char_scalar: "scalar c \<Longrightarrow> \<exists>bs. utf8_char c = Inr bs"
  by (auto simp: utf8_char_def scalar_def)

lemma utf8_encode_scalar: "list_all scalar t \<Longrightarrow> \<exists>bs. utf8_encode t = Inr bs"
proof (induction t)
  case Nil
  then show ?case by simp
next
  case (Cons c t)
  then obtain bs r where "utf8_char c = Inr bs" "utf8_encode t = Inr r"
    using utf8_char_scalar [of c] by auto
  then show ?case by simp
qed

lemma scalar_ascii: "c < 128 \<Longrightarrow> scalar c"
  by (simp add: scalar_def)

lemma ustr_ascii: "list_all (\<lambda>c. c < 128) s \<Longrightarrow> list_all scalar s"
  by (induction s) (auto simp: scalar_ascii)

lemma nat_str_digits: "list_all (\<lambda>c. 48 \<le> c \<and> c \<le> 57) (nat_str n)"
proof (induction n rule: nat_str.induct)
  case (1 n)
  show ?case
  proof (cases "n < 10")
    case True
    then show ?thesis by (simp add: nat_str.simps [of n])
  next
    case False
    with 1 have "list_all (\<lambda>c. 48 \<le> c \<and> c \<le> 57) (nat_str (n div 10))" by simp
    moreover have "n mod 10 < 10" by simp
    ultimately show ?thesis using False by (simp add: nat_str.simps [of n])
  qed
qed

lemma nat_str_scalar: "list_all scalar (nat_str n)"
  using nat_str_digits [of n] by (auto simp: list_all_iff intro!: scalar_ascii)

lemma int_str_scalar: "list_all scalar (int_str i)"
  by (simp add: int_str_def nat_str_scalar scalar_ascii)

lemma hex_digit_scalar: "d < 16 \<Longrightarrow> scalar (hex_digit d)"
  by (simp add: hex_digit_def scalar_ascii)

lemma escape_char_scalar: "scalar c \<Longrightarrow> list_all scalar (escape_char c)"
proof (cases "c < 32")
  case True
  then have "c div 16 < 16" "c mod 16 < 16" by simp_all
  with True show ?thesis by (simp add: escape_char_def hex_digit_scalar scalar_ascii)
next
  case False
  assume "scalar c"
  with False show ?thesis by (simp add: escape_char_def scalar_ascii)
qed

lemma encode_basestring_scalar: "list_all scalar s \<Longrightarrow> list_all scalar (encode_basestring s)"
  by (induction s) (auto simp: encode_basestring_def escape_char_scalar scalar_ascii)

lemma join_scalar:
  "list_all scalar sep \<Longrightarrow> list_all (list_all scalar) xs \<Longrightarrow> list_all scalar (join sep xs)"
  by (induction sep xs rule: join.induct) auto

lemma newline_indent_scalar: "list_all scalar (newline_indent n)"
  by (simp add: newline_indent_def scalar_ascii list_all_iff)

lemma iterencode_scalar: "encodable v \<Longrightarrow> list_all scalar (iterencode n v)"
proof (induction v arbitrary: n)
  case (JArr xs)
  have "list_all (list_all scalar) (map (iterencode (Suc n)) xs)"
    using JArr by (auto simp: list_all_iff)
  then show ?case
    by (simp add: join_scalar newline_indent_scalar scalar_ascii ustr_def)
next
  case (JObj kvs)
  have "list_all scalar (encode_basestring (fst kv) @ ustr '': '' @ iterencode (Suc n) (snd kv))"
    if "kv \<in> set kvs" for kv
  proof -
    from that JObj.prems have k: "list_all scalar (fst kv)" and e: "encodable (snd kv)"
      by (auto simp: list_all_iff)
    have "snd kv \<in> Basic_BNFs.snds kv" by (cases kv) simp
    from JObj.IH [OF that this e] k show ?thesis
      by (simp add: encode_basestring_scalar scalar_ascii ustr_def)
  qed
  then have "list_all (list_all scalar)
          (map (\<lambda>kv. encode_basestring (fst kv) @ ustr '': '' @ iterencode (Suc n) (snd kv)) kvs)"
    by (simp add: list_all_iff)
  then show ?case
    by (simp add: join_scalar newline_indent_scalar scalar_ascii ustr_def)
qed (simp_all add: int_str_scalar encode_basestring_scalar scalar_ascii ustr_def)

lemma dumps_encodable: "encodable v \<Longrightarrow> \<exists>bytes. utf8_encode (dumps v) = Inr bytes"
  by (simp add: dumps_def iterencode_scalar utf8_encode_scalar)

lemma paths_distinct:
  "input_file \<noteq> output_file" "input_file \<noteq> backup_file" "output_file \<noteq> backup_file"
  by (simp_all add: input_file_def output_file_def backup_file_def)

lemma dump_to_file_Inr:
  "dump_to_file fs path v = Inr fs' \<longleftrightarrow> (\<exists>bytes. utf8_encode (dumps v) = Inr bytes \<and> fs' = fs(path \<mapsto> bytes))"
  by (auto simp: dump_to_file_def split: sum.splits)



lemma main_Inr:
  assumes "main fc rs fs = Inr (fs2, out)"
  obtains records n valid errored listing fs1 msg where
    "load fc fs input_file = Inr records" "py_len records = Inr n"
    "partition_records records = Inr (valid, errored)" "report rs errored = Inr listing"
    "writeCleaned fs valid = Inr fs1" "maybeBackup fs1 records = Inr (fs2, msg)"
  using assms by (auto simp: main_def split: sum.splits prod.splits)

lemma load_same_file: "fs' path = fs path \<Longrightarrow> load fc fs' path = load fc fs path"
  by (simp add: load_def)

subsection \<open>A run on a concrete input\<close>

text \<open>The input \<^verbatim>\<open>[{"error":""}]\<close>: one Record, errored, with an empty error text.\<close>

lemma scan_example:
  "scan_once fc (ustr ''[{\"error\":\"\"}]'') = Inr (JArr [JObj [(ustr ''error'', JStr [])]], [])"
  by (simp add: ustr_def scan_once.simps scan_array.simps scan_object.simps scanstring.simps
      skip_ws_def is_ws_def cons_str_def dict_of_pairs_def)

lemma decode_example: "utf8_decode (ustr ''[{\"error\":\"\"}]'') = Inr (ustr ''[{\"error\":\"\"}]'')"
  by (simp add: ustr_def cons_res_def)

lemma newlines_example: "universal_newlines (ustr ''[{\"error\":\"\"}]'') = ustr ''[{\"error\":\"\"}]''"
  by (simp add: ustr_def)

lemma load_example:
  "fs input_file = Some (ustr ''[{\"error\":\"\"}]'') \<Longrightarrow>
   load fc fs input_file = Inr (JArr [JObj [(ustr ''error'', JStr [])]])"
  using scan_example [of fc]
  by (simp add: load_def decode_example newlines_example loads_def)
     (simp add: ustr_def skip_ws_def is_ws_def)

lemma encode_empty_example: "utf8_encode (dumps (JArr [])) = Inr [91, 93]"
  by (simp add: dumps_def ustr_def utf8_char_def)



lemma run_example_existing:
  assumes "fs input_file = Some (ustr ''[{\"error\":\"\"}]'')" and "fs backup_file = Some old"
  shows "\<exists>out. main fc rs fs = Inr (fs(output_file \<mapsto> [91, 93]), out)"
proof -
  have l: "load fc fs input_file = Inr (JArr [JObj [(ustr ''error'', JStr [])]])"
    using load_example [where fs = fs and fc = fc] assms(1) by simp
  show ?thesis
    using assms(2) paths_distinct
    by (simp add: main_def l partition_records_def report_def
        writeCleaned_def dump_to_file_def maybeBackup_def encode_empty_example)
qed





text \<open>
  Claim C6. When a file exists at the backup path, \<open>maybeBackup\<close> does nothing; a run
  of the script then leaves the backup as it was and still writes the cleaned file. After
  any completed run the backup exists, and a second run leaves every file as the first
  run left it: the backup after two runs is the backup after one.
\<close>

theorem backup_written_once:
  "(fs backup_file = Some old \<longrightarrow> maybeBackup fs records = Inr (fs, [])) \<and>
   (fs backup_file = Some old \<and> main fc rs fs = Inr (fs2, out) \<longrightarrow>
      fs2 backup_file = Some old \<and>
      (\<exists>loaded valid errored b.
         load fc fs input_file = Inr loaded \<and> partition_records loaded = Inr (valid, errored) \<and>
         utf8_encode (dumps (JArr valid)) = Inr b \<and> fs2 output_file = Some b)) \<and>
   (main fc rs fs = Inr (fs2, out) \<longrightarrow>
      fs2 backup_file \<noteq> None \<and> (\<exists>out'. main fc rs fs2 = Inr (fs2, out')))"
proof (intro conjI impI)
  assume "fs backup_file = Some old"
  then show "maybeBackup fs records = Inr (fs, [])" by (simp add: maybeBackup_def)
next
  assume a: "fs backup_file = Some old \<and> main fc rs fs = Inr (fs2, out)"
  then obtain loaded n valid errored listing fs1 msg where m:
    "load fc fs input_file = Inr loaded" "partition_records loaded = Inr (valid, errored)"
    "writeCleaned fs valid = Inr fs1" "maybeBackup fs1 loaded = Inr (fs2, msg)"
    by (auto elim: main_Inr)
  from m(3) obtain b where b: "utf8_encode (dumps (JArr valid)) = Inr b" "fs1 = fs(output_file \<mapsto> b)"
    by (auto simp: writeCleaned_def dump_to_file_Inr)
  with a paths_distinct have "fs1 backup_file = Some old" by simp
  with m(4) have "fs2 = fs1" by (simp add: maybeBackup_def)
  with b a paths_distinct have r: "fs2 backup_file = Some old" "fs2 output_file = Some b" by simp_all
  from r show "fs2 backup_file = Some old" by simp
  from r m b show "\<exists>loaded valid errored b.
         load fc fs input_file = Inr loaded \<and> partition_records loaded = Inr (valid, errored) \<and>
         utf8_encode (dumps (JArr valid)) = Inr b \<and> fs2 output_file = Some b"
    by blast
next
  assume a: "main fc rs fs = Inr (fs2, out)"
  then obtain loaded n valid errored listing fs1 msg where m:
    "load fc fs input_file = Inr loaded" "py_len loaded = Inr n"
    "partition_records loaded = Inr (valid, errored)" "report rs errored = Inr listing"
    "writeCleaned fs valid = Inr fs1" "maybeBackup fs1 loaded = Inr (fs2, msg)"
    by (rule main_Inr)
  from m(5) obtain b where b: "utf8_encode (dumps (JArr valid)) = Inr b" "fs1 = fs(output_file \<mapsto> b)"
    by (auto simp: writeCleaned_def dump_to_file_Inr)
  from m(6) have c: "fs2 backup_file \<noteq> None \<and> fs2 input_file = fs1 input_file \<and> fs2 output_file = fs1 output_file"
    using paths_distinct by (auto simp: maybeBackup_def dump_to_file_def split: sum.splits if_splits)
  then show "fs2 backup_file \<noteq> None" by simp
  from c b paths_distinct have i: "fs2 input_file = fs input_file" and o: "fs2 output_file = Some b" by simp_all
  from i m(1) have l: "load fc fs2 input_file = Inr loaded" by (simp add: load_def)
  from o have "fs2(output_file \<mapsto> b) = fs2" by (auto simp: fun_eq_iff)
  with b(1) have w: "writeCleaned fs2 valid = Inr fs2" by (simp add: writeCleaned_def dump_to_file_def)
  from c have k: "maybeBackup fs2 loaded = Inr (fs2, [])" by (simp add: maybeBackup_def)
  show "\<exists>out'. main fc rs fs2 = Inr (fs2, out')"
    by (simp add: main_def l m(2) m(3) m(4) w k)
qed

theorem backup_written_once_witness:
  "(Map.empty(input_file \<mapsto> ustr ''[{\"error\":\"\"}]'', backup_file \<mapsto> [111, 108, 100])) backup_file
     = Some [111, 108, 100] \<and>
   (\<exists>out fs2.
      main id id (Map.empty(input_file \<mapsto> ustr ''[{\"error\":\"\"}]'', backup_file \<mapsto> [111, 108, 100]))
        = Inr (fs2, out) \<and>
      fs2 backup_file = Some [111, 108, 100] \<and> fs2 output_file = Some [91, 93])"
proof -
  let ?fs = "Map.empty(input_file \<mapsto> ustr ''[{\"error\":\"\"}]'', backup_file \<mapsto> [111, 108, 100])"
  have h: "?fs backup_file = Some [111, 108, 100]" by simp
  have i: "?fs input_file = Some (ustr ''[{\"error\":\"\"}]'')" using paths_distinct by simp
  from run_example_existing [where fs = "?fs" and fc = id and rs = id and old = "[111, 108, 100]"] i h
  obtain out where
    m: "main id id ?fs = Inr (?fs(output_file \<mapsto> [91, 93]), out)"
    by blast
  from backup_written_once [where fs = "?fs" and old = "[111, 108, 100]" and fc = id and rs = id
      and ?fs2.0 = "?fs(output_file \<mapsto> [91, 93])" and out = out] h m
  have "(?fs(output_file \<mapsto> [91, 93])) backup_file = Some [111, 108, 100]" by blast
  moreover have "(?fs(output_file \<mapsto> [91, 93])) output_file = Some [91, 93]" by simp
  ultimately show ?thesis using h m by blast
qed

section \<open>Reading back what was written\<close>

subsection \<open>Integers\<close>

lemma nat_str_nonempty: "nat_str n \<noteq> []"
  by (subst nat_str.simps) simp

lemma digits_val_snoc: "digits_val (ds @ [c]) = 10 * digits_val ds + (c - 48)"
  by (simp add: digits_val_def)

lemma digits_val_nat_str: "digits_val (nat_str n) = n"
proof (induction n rule: nat_str.induct)
  case (1 n)
  show ?case
  proof (cases "n < 10")
    case True
    then show ?thesis by (simp add: nat_str.simps [of n] digits_val_def)
  next
    case False
    with 1 have "digits_val (nat_str (n div 10)) = n div 10" by simp
    with False show ?thesis by (simp add: nat_str.simps [of n] digits_val_snoc)
  qed
qed

lemma nat_str_is_digit: "list_all is_digit (nat_str n)"
  using nat_str_digits [of n] by (simp add: is_digit_def [abs_def])

lemma nat_str_zero: "nat_str 0 = [48]"
  by (simp add: nat_str.simps [of 0])

lemma nat_str_hd: "0 < n \<Longrightarrow> hd (nat_str n) \<noteq> 48"
proof (induction n rule: nat_str.induct)
  case (1 n)
  show ?case
  proof (cases "n < 10")
    case True
    with 1(2) show ?thesis by (simp add: nat_str.simps [of n])
  next
    case False
    then have "0 < n div 10" by simp
    with 1(1) False have "hd (nat_str (n div 10)) \<noteq> 48" by simp
    with False show ?thesis by (simp add: nat_str.simps [of n] nat_str_nonempty)
  qed
qed

lemma value_end_not_digit: "value_end r \<Longrightarrow> r = [] \<or> \<not> is_digit (hd r)"
  by (cases r) (auto simp: value_end_def is_digit_def)

lemma takeWhile_digits:
  "list_all is_digit ds \<Longrightarrow> value_end r \<Longrightarrow> takeWhile is_digit (ds @ r) = ds"
  using value_end_not_digit [of r]
  by (cases r) (auto simp: list_all_iff takeWhile_append2)

lemma dropWhile_digits:
  "list_all is_digit ds \<Longrightarrow> value_end r \<Longrightarrow> dropWhile is_digit (ds @ r) = r"
  using value_end_not_digit [of r]
  by (cases r) (auto simp: list_all_iff dropWhile_append2)

lemma match_int_nat_str:
  assumes "value_end r"
  shows "match_int (nat_str n @ r) = Some (nat_str n, r)"
proof -
  obtain d ds where ds: "nat_str n = d # ds" using nat_str_nonempty [of n] by (cases "nat_str n") auto
  with nat_str_is_digit [of n] have dd: "is_digit d" by simp
  then have d45: "d \<noteq> 45" by (simp add: is_digit_def)
  show ?thesis
  proof (cases "n = 0")
    case True
    then show ?thesis using nat_str_zero by (simp add: match_int_def)
  next
    case False
    with nat_str_hd [of n] ds have "d \<noteq> 48" by simp
    moreover have "takeWhile is_digit (d # ds @ r) = d # ds" "dropWhile is_digit (d # ds @ r) = r"
      using takeWhile_digits [OF nat_str_is_digit assms, of n]
        dropWhile_digits [OF nat_str_is_digit assms, of n] ds by simp_all
    ultimately show ?thesis using ds dd d45 by (simp add: match_int_def)
  qed
qed

lemma match_int_neg:
  assumes "value_end r" and "0 < n"
  shows "match_int (45 # nat_str n @ r) = Some (45 # nat_str n, r)"
proof -
  obtain d ds where ds: "nat_str n = d # ds" using nat_str_nonempty [of n] by (cases "nat_str n") auto
  with nat_str_is_digit [of n] have dd: "is_digit d" by simp
  from nat_str_hd [OF assms(2)] ds have "d \<noteq> 48" by simp
  moreover have "takeWhile is_digit (d # ds @ r) = d # ds" "dropWhile is_digit (d # ds @ r) = r"
    using takeWhile_digits [OF nat_str_is_digit assms(1), of n]
      dropWhile_digits [OF nat_str_is_digit assms(1), of n] ds by simp_all
  ultimately show ?thesis using ds dd by (simp add: match_int_def)
qed

lemma match_int_int_str: "value_end r \<Longrightarrow> match_int (int_str i @ r) = Some (int_str i, r)"
  by (simp add: int_str_def match_int_nat_str match_int_neg)

lemma int_of_text_int_str: "int_of_text (int_str i) = i"
proof (cases "i < 0")
  case True
  then show ?thesis by (simp add: int_str_def int_of_text_def digits_val_nat_str)
next
  case False
  obtain d ds where ds: "nat_str (nat i) = d # ds"
    using nat_str_nonempty [of "nat i"] by (cases "nat_str (nat i)") auto
  with nat_str_is_digit [of "nat i"] have "d \<noteq> 45" by (auto simp: is_digit_def)
  with False ds digits_val_nat_str [of "nat i"] show ?thesis
    by (simp add: int_str_def int_of_text_def)
qed

lemma match_frac_end: "value_end r \<Longrightarrow> match_frac r = None"
  by (cases r) (auto simp: value_end_def match_frac_def)

lemma match_exp_end: "value_end r \<Longrightarrow> match_exp r = None"
  by (cases r) (auto simp: value_end_def match_exp_def)

lemma int_str_nonempty: "int_str i \<noteq> []"
  by (simp add: int_str_def nat_str_nonempty)

lemma match_number_int_str:
  "value_end r \<Longrightarrow> match_number fc (int_str i @ r) = Some (JInt i, r)"
  by (simp add: match_number_def match_int_int_str match_frac_end match_exp_end int_of_text_int_str)

subsection \<open>Strings and words\<close>

lemma hexval_hex_digit: "d < 16 \<Longrightarrow> hexval (hex_digit d) = Some d"
  by (auto simp: hexval_def hex_digit_def)

lemma hex4_control:
  assumes "c < 32"
  shows "hex4 (48 # 48 # hex_digit (c div 16) # hex_digit (c mod 16) # r) = Some (c, r)"
proof -
  from assms have "c div 16 < 16" "c mod 16 < 16" by simp_all
  then have "hexval (hex_digit (c div 16)) = Some (c div 16)" "hexval (hex_digit (c mod 16)) = Some (c mod 16)"
    by (simp_all add: hexval_hex_digit)
  moreover have "hexval 48 = Some 0" by (simp add: hexval_def)
  ultimately show ?thesis by simp
qed

lemma scanstring_literal:
  "32 \<le> c \<Longrightarrow> c \<noteq> 34 \<Longrightarrow> c \<noteq> 92 \<Longrightarrow> scanstring (c # r) = cons_str c (scanstring r)"
  by (subst scanstring.simps) simp

lemma scanstring_short_escape:
  "unescape e = Some ch \<Longrightarrow> e \<noteq> 117 \<Longrightarrow> scanstring (92 # e # r) = cons_str ch (scanstring r)"
  by (subst scanstring.simps) simp

lemma scanstring_control:
  assumes "c < 32"
  shows "scanstring (92 # 117 # 48 # 48 # hex_digit (c div 16) # hex_digit (c mod 16) # r)
           = cons_str c (scanstring r)"
  using assms by (subst scanstring.simps) (simp add: hex4_control del: hex4.simps)

lemma scanstring_escape_char: "scanstring (escape_char c @ r) = cons_str c (scanstring r)"
proof -
  consider "c = 34" | "c = 92" | "c = 10" | "c = 13" | "c = 9" | "c = 8" | "c = 12"
    | "c < 32" "c \<noteq> 10" "c \<noteq> 13" "c \<noteq> 9" "c \<noteq> 8" "c \<noteq> 12"
    | "32 \<le> c" "c \<noteq> 34" "c \<noteq> 92"
    by linarith
  then show ?thesis
  proof cases
    case 8
    then show ?thesis using scanstring_control [of c r] by (simp add: escape_char_def)
  next
    case 9
    then show ?thesis using scanstring_literal [of c r] by (simp add: escape_char_def)
  qed (simp_all add: escape_char_def scanstring_short_escape unescape_def)
qed

lemma scanstring_quote: "scanstring (34 # r) = Inr ([], r)"
  by (subst scanstring.simps) simp

lemma scanstring_escaped: "scanstring (concat (map escape_char s) @ 34 # r) = Inr (s, r)"
  by (induction s) (simp_all add: scanstring_quote scanstring_escape_char cons_str_def)

lemma scan_once_string: "scan_once fc (encode_basestring s @ r) = Inr (JStr s, r)"
  by (subst scan_once.simps) (simp add: encode_basestring_def scanstring_escaped)

lemma scan_once_null: "scan_once fc (ustr ''null'' @ r) = Inr (JNull, r)"
  by (subst scan_once.simps) (simp add: ustr_def)

lemma scan_once_true: "scan_once fc (ustr ''true'' @ r) = Inr (JBool True, r)"
  by (subst scan_once.simps) (simp add: ustr_def)

lemma scan_once_false: "scan_once fc (ustr ''false'' @ r) = Inr (JBool False, r)"
  by (subst scan_once.simps) (simp add: ustr_def)

lemma int_str_first:
  obtains d ds where "int_str i = d # ds" "d = 45 \<or> is_digit d"
proof (cases "int_str i")
  case Nil
  then show ?thesis using int_str_nonempty by simp
next
  case (Cons d ds)
  have "d = 45 \<or> is_digit d"
  proof (cases "i < 0")
    case True
    with Cons show ?thesis by (simp add: int_str_def)
  next
    case False
    with Cons nat_str_is_digit [of "nat i"] show ?thesis by (simp add: int_str_def)
  qed
  with Cons that show ?thesis by blast
qed

lemma scan_once_int: "value_end r \<Longrightarrow> scan_once fc (int_str i @ r) = Inr (JInt i, r)"
proof -
  assume e: "value_end r"
  obtain d ds where ds: "int_str i = d # ds" "d = 45 \<or> is_digit d" by (rule int_str_first)
  from ds(2) have d: "d \<noteq> 34" "d \<noteq> 123" "d \<noteq> 91" "d \<noteq> 110" "d \<noteq> 116" "d \<noteq> 102"
    by (auto simp: is_digit_def)
  have m: "match_number fc (d # ds @ r) = Some (JInt i, r)"
    using match_number_int_str [OF e, of fc i] ds(1) by simp
  show ?thesis
    by (subst scan_once.simps) (simp add: ds(1) d ustr_def m)
qed

subsection \<open>Arrays and objects\<close>

lemma value_start_facts:
  "value_start c \<Longrightarrow> \<not> is_ws c \<and> c \<noteq> 93 \<and> c \<noteq> 125 \<and> c \<noteq> 65279 \<and> c \<noteq> 13 \<and> c \<noteq> 44 \<and> c \<noteq> 58"
  by (auto simp: value_start_def is_ws_def is_digit_def)

lemma match_int_start: "match_int (c # r) = Some x \<Longrightarrow> c = 45 \<or> is_digit c"
  by (auto simp: match_int_def Let_def is_digit_def split: if_splits list.splits)

lemma match_number_start: "match_number fc (c # r) = Some x \<Longrightarrow> c = 45 \<or> is_digit c"
  using match_int_start [of c r]
  by (cases "match_int (c # r)") (auto simp: match_number_def)

lemma scan_word_start: "scan_word (c # r) = Some x \<Longrightarrow> c = 78 \<or> c = 73 \<or> c = 45"
  by (auto simp: scan_word_def ustr_def split: if_splits)

lemma scan_once_start:
  assumes "scan_once fc s = Inr x"
  obtains c r where "s = c # r" "value_start c"
proof (cases s)
  case Nil
  with assms show ?thesis by (simp add: scan_once.simps)
next
  case (Cons c r)
  have "value_start c"
  proof (rule ccontr)
    assume n: "\<not> value_start c"
    then have c: "c \<noteq> 34" "c \<noteq> 123" "c \<noteq> 91" "c \<noteq> 110" "c \<noteq> 116" "c \<noteq> 102"
      "c \<noteq> 45" "\<not> is_digit c" "c \<noteq> 78" "c \<noteq> 73"
      by (auto simp: value_start_def)
    from c match_number_start [of fc c r] have m: "match_number fc (c # r) = None"
      by (cases "match_number fc (c # r)") auto
    from c scan_word_start [of c r] have w: "scan_word (c # r) = None"
      by (cases "scan_word (c # r)") auto
    from assms show False
      unfolding Cons by (subst (asm) scan_once.simps) (simp add: c ustr_def m w)
  qed
  with Cons that show ?thesis by blast
qed

lemma iterencode_start_ex:
  assumes "loadable fc v"
  shows "\<exists>c cs. iterencode n v = c # cs \<and> value_start c"
proof (cases v)
  case (JFloat f)
  with assms have a: "\<And>r. value_end r \<Longrightarrow> scan_once fc (f @ r) = Inr (JFloat f, r)"
    by (simp add: float_rereads_def)
  have "value_end []" by (simp add: value_end_def)
  from a [OF this] have "scan_once fc f = Inr (JFloat f, [])" by simp
  then obtain c r where "f = c # r" "value_start c" by (auto elim: scan_once_start)
  with JFloat show ?thesis by simp
next
  case (JInt i)
  obtain d ds where "int_str i = d # ds" "d = 45 \<or> is_digit d" by (rule int_str_first)
  with JInt show ?thesis by (auto simp: value_start_def)
next
  case (JBool b)
  then show ?thesis by (cases b) (simp_all add: value_start_def ustr_def)
next
  case JNull
  then show ?thesis by (simp add: value_start_def ustr_def)
next
  case (JStr s)
  then show ?thesis by (simp add: value_start_def encode_basestring_def)
next
  case (JArr xs)
  then show ?thesis by (cases "xs = []") (simp_all add: value_start_def ustr_def)
next
  case (JObj kvs)
  then show ?thesis by (cases "kvs = []") (simp_all add: value_start_def ustr_def)
qed

lemma iterencode_start:
  assumes "loadable fc v"
  obtains c cs where "iterencode n v = c # cs" "value_start c"
  using iterencode_start_ex [OF assms, of n] by blast

lemma skip_ws_start: "value_start c \<Longrightarrow> skip_ws (c # r) = c # r"
  using value_start_facts [of c] by (simp add: skip_ws_def)

lemma skip_ws_space: "skip_ws (32 # r) = skip_ws r"
  by (simp add: skip_ws_def is_ws_def)

lemma skip_ws_indent: "skip_ws (newline_indent k @ r) = skip_ws r"
  by (simp add: skip_ws_def newline_indent_def is_ws_def dropWhile_append)

lemma skip_ws_plain: "\<not> is_ws c \<Longrightarrow> skip_ws (c # r) = c # r"
  by (simp add: skip_ws_def)

lemma value_end_indent: "value_end (newline_indent k @ r)"
  by (simp add: value_end_def newline_indent_def)

lemma value_end_comma: "value_end (44 # r)"
  by (simp add: value_end_def)

lemma join_start:
  assumes "loadable fc x"
  obtains c cs where "join sep (map (iterencode n) (x # xs)) = c # cs" "value_start c"
proof -
  obtain c cs where e: "iterencode n x = c # cs" "value_start c" using assms by (rule iterencode_start)
  then show ?thesis using that by (cases xs) auto
qed

lemma scan_array_items:
  assumes "\<And>x r. x \<in> set xs \<Longrightarrow> value_end r \<Longrightarrow> scan_once fc (iterencode (Suc n) x @ r) = Inr (x, r)"
    and "list_all (loadable fc) xs" and "xs \<noteq> []"
  shows "scan_array fc acc
           (join (44 # newline_indent (Suc n)) (map (iterencode (Suc n)) xs) @ newline_indent n @ 93 # r)
         = Inr (JArr (acc @ xs), r)"
  using assms
proof (induction xs arbitrary: acc)
  case Nil
  then show ?case by simp
next
  case (Cons x xs)
  show ?case
  proof (cases xs)
    case Nil
    have s: "scan_once fc (iterencode (Suc n) x @ newline_indent n @ 93 # r) = Inr (x, newline_indent n @ 93 # r)"
      using Cons.prems(1) [of x] by (simp add: value_end_indent)
    show ?thesis
      unfolding Nil
      by (subst scan_array.simps) (simp add: s skip_ws_indent skip_ws_plain is_ws_def)
  next
    case (Cons y ys)
    define rest where
      "rest = join (44 # newline_indent (Suc n)) (map (iterencode (Suc n)) (y # ys)) @ newline_indent n @ 93 # r"
    have ly: "loadable fc y" using Cons.prems(2) Cons by simp
    obtain c cs where j: "join (44 # newline_indent (Suc n)) (map (iterencode (Suc n)) (y # ys)) = c # cs"
      "value_start c"
      using ly by (rule join_start)
    then have rc: "rest = c # cs @ newline_indent n @ 93 # r" by (simp add: rest_def)
    have s: "scan_once fc (iterencode (Suc n) x @ 44 # newline_indent (Suc n) @ rest)
              = Inr (x, 44 # newline_indent (Suc n) @ rest)"
      using Cons.prems(1) [of x] by (simp add: value_end_comma)
    have k: "skip_ws (newline_indent (Suc n) @ rest) = rest"
      using j(2) by (simp add: rc skip_ws_indent skip_ws_start)
    have IH: "scan_array fc (acc @ [x]) rest = Inr (JArr ((acc @ [x]) @ y # ys), r)"
      unfolding rest_def using Cons.IH [of "acc @ [x]"] Cons.prems Cons by simp
    have "scan_array fc acc (iterencode (Suc n) x @ 44 # newline_indent (Suc n) @ rest)
           = Inr (JArr (acc @ x # y # ys), r)"
      by (subst scan_array.simps) (simp add: s skip_ws_plain is_ws_def k IH)
    then show ?thesis unfolding Cons rest_def by simp
  qed
qed

lemma dict_set_fresh: "k \<notin> fst ` set d \<Longrightarrow> dict_set k v d = d @ [(k, v)]"
  by (induction d) auto

lemma dict_fold_distinct:
  "distinct (map fst (d @ kvs)) \<Longrightarrow>
   foldl (\<lambda>d kv. dict_set (fst kv) (snd kv) d) d kvs = d @ kvs"
proof (induction kvs arbitrary: d)
  case Nil
  then show ?case by simp
next
  case (Cons kv kvs)
  then have f: "fst kv \<notin> fst ` set d" by auto
  from Cons.prems have "distinct (map fst ((d @ [kv]) @ kvs))" by simp
  from Cons.IH [OF this] f show ?case by (simp add: dict_set_fresh)
qed

lemma dict_of_pairs_distinct: "distinct (map fst kvs) \<Longrightarrow> dict_of_pairs kvs = kvs"
  using dict_fold_distinct [of "[]" kvs] by (simp add: dict_of_pairs_def)

lemma scan_object_step:
  assumes v: "scan_once fc (iterencode m v @ tail) = Inr (v, tail)" and l: "loadable fc v"
  shows "scan_object fc acc (encode_basestring k @ ustr '': '' @ iterencode m v @ tail) =
     (case skip_ws tail of
        [] \<Rightarrow> Inl JSONDecodeError
      | d # r3 \<Rightarrow>
          if d = 125 then Inr (JObj (dict_of_pairs (acc @ [(k, v)])), r3)
          else if d = 44 then scan_object fc (acc @ [(k, v)]) (skip_ws r3)
          else Inl JSONDecodeError)"
proof -
  obtain c cs where e: "iterencode m v = c # cs" "value_start c" using l by (rule iterencode_start)
  define body where "body = iterencode m v @ tail"
  have b: "skip_ws (32 # body) = body" "scan_once fc body = Inr (v, tail)"
    using e v by (simp_all add: body_def skip_ws_space skip_ws_start)
  define key where "key = concat (map escape_char k)"
  have s: "scanstring (key @ 34 # 58 # 32 # body) = Inr (k, 58 # 32 # body)"
    by (simp add: key_def scanstring_escaped)
  have len: "\<And>d r3. skip_ws tail = d # r3 \<Longrightarrow> length r3 < length body"
  proof -
    fix d r3 assume "skip_ws tail = d # r3"
    with skip_ws_length [of tail] have "length r3 < length tail" by simp
    then show "length r3 < length body" by (simp add: body_def)
  qed
  have "scan_object fc acc (34 # key @ 34 # 58 # 32 # body) =
     (case skip_ws tail of
        [] \<Rightarrow> Inl JSONDecodeError
      | d # r3 \<Rightarrow>
          if d = 125 then Inr (JObj (dict_of_pairs (acc @ [(k, v)])), r3)
          else if d = 44 then scan_object fc (acc @ [(k, v)]) (skip_ws r3)
          else Inl JSONDecodeError)"
    by (subst scan_object.simps) (auto simp: s skip_ws_plain is_ws_def b dest: len split: list.splits)
  then show ?thesis
    by (simp add: encode_basestring_def key_def body_def ustr_def)
qed

lemma scan_object_items:
  assumes "\<And>kv r. kv \<in> set kvs \<Longrightarrow> value_end r \<Longrightarrow>
              scan_once fc (iterencode (Suc n) (snd kv) @ r) = Inr (snd kv, r)"
    and "list_all (\<lambda>kv. loadable fc (snd kv)) kvs" and "kvs \<noteq> []"
  shows "scan_object fc acc
           (join (44 # newline_indent (Suc n))
              (map (\<lambda>kv. encode_basestring (fst kv) @ ustr '': '' @ iterencode (Suc n) (snd kv)) kvs)
            @ newline_indent n @ 125 # r)
         = Inr (JObj (dict_of_pairs (acc @ kvs)), r)"
  using assms
proof (induction kvs arbitrary: acc)
  case Nil
  then show ?case by simp
next
  case (Cons kv kvs)
  obtain k v where kv: "kv = (k, v)" by (cases kv)
  have lv: "loadable fc v" using Cons.prems(2) kv by simp
  show ?case
  proof (cases kvs)
    case Nil
    have s: "scan_once fc (iterencode (Suc n) v @ newline_indent n @ 125 # r) = Inr (v, newline_indent n @ 125 # r)"
      using Cons.prems(1) [of kv] kv by (simp add: value_end_indent)
    show ?thesis
      unfolding Nil kv
      using scan_object_step [OF s lv, of acc k]
      by (simp add: skip_ws_indent skip_ws_plain is_ws_def)
  next
    case (Cons kv' kvs')
    define rest where
      "rest = join (44 # newline_indent (Suc n))
              (map (\<lambda>kv. encode_basestring (fst kv) @ ustr '': '' @ iterencode (Suc n) (snd kv)) (kv' # kvs'))
            @ newline_indent n @ 125 # r"
    have "\<exists>cs. rest = 34 # cs"
      by (cases kvs') (simp_all add: rest_def encode_basestring_def)
    then obtain cs where rc: "rest = 34 # cs" ..
    have k: "skip_ws (newline_indent (Suc n) @ rest) = rest"
      by (simp add: rc skip_ws_indent skip_ws_plain is_ws_def)
    have s: "scan_once fc (iterencode (Suc n) v @ 44 # newline_indent (Suc n) @ rest)
               = Inr (v, 44 # newline_indent (Suc n) @ rest)"
      using Cons.prems(1) [of kv] kv by (simp add: value_end_comma)
    have IH: "scan_object fc (acc @ [(k, v)]) rest = Inr (JObj (dict_of_pairs ((acc @ [(k, v)]) @ kv' # kvs')), r)"
      unfolding rest_def using Cons.IH [of "acc @ [(k, v)]"] Cons.prems Cons by simp
    have "scan_object fc acc (encode_basestring k @ ustr '': '' @ iterencode (Suc n) v
             @ 44 # newline_indent (Suc n) @ rest)
           = Inr (JObj (dict_of_pairs (acc @ (k, v) # kv' # kvs')), r)"
      using scan_object_step [OF s lv, of acc k] by (simp add: skip_ws_plain is_ws_def k IH)
    then show ?thesis unfolding Cons kv rest_def by simp
  qed
qed

lemma scan_once_iterencode:
  "loadable fc v \<Longrightarrow> value_end r \<Longrightarrow> scan_once fc (iterencode n v @ r) = Inr (v, r)"
proof (induction v arbitrary: n r)
  case JNull
  then show ?case by (simp add: scan_once_null)
next
  case (JBool b)
  then show ?case by (cases b) (simp_all add: scan_once_true scan_once_false)
next
  case (JInt i)
  then show ?case by (simp add: scan_once_int)
next
  case (JFloat f)
  then show ?case by (simp add: float_rereads_def)
next
  case (JStr s)
  then show ?case by (simp add: scan_once_string)
next
  case (JArr xs)
  show ?case
  proof (cases "xs = []")
    case True
    then show ?thesis
      by (simp add: ustr_def) (subst scan_once.simps, simp add: skip_ws_plain is_ws_def)
  next
    case False
    then obtain x xs' where xs: "xs = x # xs'" by (cases xs) auto
    define items where
      "items = join (44 # newline_indent (Suc n)) (map (iterencode (Suc n)) xs) @ newline_indent n @ 93 # r"
    from JArr.prems xs have "loadable fc x" by simp
    then obtain c cs where j: "join (44 # newline_indent (Suc n)) (map (iterencode (Suc n)) (x # xs')) = c # cs"
      "value_start c" by (rule join_start)
    then have ic: "items = c # cs @ newline_indent n @ 93 # r" by (simp add: items_def xs)
    have k: "skip_ws (newline_indent (Suc n) @ items) = items"
      using j(2) by (simp add: ic skip_ws_indent skip_ws_start)
    have c93: "c \<noteq> 93" using value_start_facts [OF j(2)] by simp
    have a: "scan_array fc [] items = Inr (JArr ([] @ xs), r)"
      unfolding items_def
    proof (rule scan_array_items)
      fix x r assume "x \<in> set xs" "value_end r"
      with JArr.IH [of x r "Suc n"] JArr.prems(1)
      show "scan_once fc (iterencode (Suc n) x @ r) = Inr (x, r)" by (simp add: list_all_iff)
    next
      show "list_all (loadable fc) xs" using JArr.prems(1) by simp
    next
      show "xs \<noteq> []" by fact
    qed
    have "scan_once fc (91 # newline_indent (Suc n) @ items) = Inr (JArr xs, r)"
      by (subst scan_once.simps) (simp add: ic k [unfolded ic] c93 a [unfolded ic])
    with False show ?thesis by (simp add: ustr_def items_def)
  qed
next
  case (JObj kvs)
  show ?case
  proof (cases "kvs = []")
    case True
    then show ?thesis
      by (simp add: ustr_def) (subst scan_once.simps, simp add: skip_ws_plain is_ws_def)
  next
    case False
    define items where
      "items = join (44 # newline_indent (Suc n))
                 (map (\<lambda>kv. encode_basestring (fst kv) @ ustr '': '' @ iterencode (Suc n) (snd kv)) kvs)
               @ newline_indent n @ 125 # r"
    from False obtain kv kvs' where ks: "kvs = kv # kvs'" by (cases kvs) auto
    have "\<exists>cs. items = 34 # cs"
      by (cases kvs') (simp_all add: items_def ks encode_basestring_def)
    then obtain cs where ic: "items = 34 # cs" ..
    have k: "skip_ws (newline_indent (Suc n) @ items) = items"
      by (simp add: ic skip_ws_indent skip_ws_plain is_ws_def)
    have d: "distinct (map fst kvs)" using JObj.prems(1) by simp
    have a: "scan_object fc [] items = Inr (JObj (dict_of_pairs ([] @ kvs)), r)"
      unfolding items_def
    proof (rule scan_object_items)
      fix kv r assume m: "kv \<in> set kvs" and e: "value_end r"
      have "snd kv \<in> Basic_BNFs.snds kv" by (cases kv) simp
      from JObj.IH [OF m this _ e, of "Suc n"] m JObj.prems(1)
      show "scan_once fc (iterencode (Suc n) (snd kv) @ r) = Inr (snd kv, r)" by (simp add: list_all_iff)
    next
      show "list_all (\<lambda>kv. loadable fc (snd kv)) kvs" using JObj.prems(1) by simp
    next
      show "kvs \<noteq> []" by fact
    qed
    have "scan_once fc (123 # newline_indent (Suc n) @ items) = Inr (JObj kvs, r)"
      by (subst scan_once.simps)
        (simp add: ic k [unfolded ic] a [unfolded ic] dict_of_pairs_distinct [OF d])
    with False show ?thesis by (simp add: ustr_def items_def)
  qed
qed

lemma loads_dumps: "loadable fc v \<Longrightarrow> loads fc (dumps v) = Inr v"
proof -
  assume l: "loadable fc v"
  obtain c cs where e: "iterencode 0 v = c # cs" "value_start c" using l by (rule iterencode_start)
  have "value_end []" by (simp add: value_end_def)
  from scan_once_iterencode [OF l this, of 0] have s: "scan_once fc (c # cs) = Inr (v, [])"
    by (simp add: e)
  from value_start_facts [OF e(2)] have "c \<noteq> 65279" by simp
  moreover have "skip_ws [] = []" by (simp add: skip_ws_def)
  ultimately show ?thesis
    by (simp add: loads_def dumps_def e skip_ws_start [OF e(2)] s)
qed

subsection \<open>The file\<close>

lemma utf8_decode_1: "c < 128 \<Longrightarrow> utf8_decode (c # rest) = cons_res c (utf8_decode rest)"
  by simp

lemma utf8_decode_2_bytes:
  "2 \<le> a \<Longrightarrow> a < 32 \<Longrightarrow> m < 64 \<Longrightarrow>
   utf8_decode ((192 + a) # (128 + m) # rest) = cons_res (a * 64 + m) (utf8_decode rest)"
  by (simp add: continuation_def)

lemma utf8_decode_3_bytes:
  "a < 16 \<Longrightarrow> m < 64 \<Longrightarrow> l < 64 \<Longrightarrow> 2048 \<le> (a * 64 + m) * 64 + l \<Longrightarrow>
   \<not> (55296 \<le> (a * 64 + m) * 64 + l \<and> (a * 64 + m) * 64 + l \<le> 57343) \<Longrightarrow>
   utf8_decode ((224 + a) # (128 + m) # (128 + l) # rest)
     = cons_res ((a * 64 + m) * 64 + l) (utf8_decode rest)"
  by (simp add: continuation_def)

lemma utf8_decode_4_bytes:
  "a < 8 \<Longrightarrow> m < 64 \<Longrightarrow> l < 64 \<Longrightarrow> k < 64 \<Longrightarrow>
   65536 \<le> ((a * 64 + m) * 64 + l) * 64 + k \<Longrightarrow> ((a * 64 + m) * 64 + l) * 64 + k < 1114112 \<Longrightarrow>
   utf8_decode ((240 + a) # (128 + m) # (128 + l) # (128 + k) # rest)
     = cons_res (((a * 64 + m) * 64 + l) * 64 + k) (utf8_decode rest)"
  by (simp add: continuation_def)

lemma split_2: "(c::nat) div 64 * 64 + c mod 64 = c"
  by (rule div_mult_mod_eq)

lemma split_3: "((c::nat) div 4096 * 64 + c div 64 mod 64) * 64 + c mod 64 = c"
proof -
  have h1: "c div 64 div 64 = c div 4096" by (simp add: div_mult2_eq [symmetric])
  have h2: "c div 64 div 64 * 64 + c div 64 mod 64 = c div 64" by (rule div_mult_mod_eq)
  have h3: "c div 64 * 64 + c mod 64 = c" by (rule div_mult_mod_eq)
  show ?thesis by (simp only: h2 [unfolded h1] h3)
qed

lemma split_4:
  "(((c::nat) div 262144 * 64 + c div 4096 mod 64) * 64 + c div 64 mod 64) * 64 + c mod 64 = c"
proof -
  have h0: "c div 4096 div 64 = c div 262144" by (simp add: div_mult2_eq [symmetric])
  have h1: "c div 64 div 64 = c div 4096" by (simp add: div_mult2_eq [symmetric])
  have g: "c div 4096 div 64 * 64 + c div 4096 mod 64 = c div 4096" by (rule div_mult_mod_eq)
  have h2: "c div 64 div 64 * 64 + c div 64 mod 64 = c div 64" by (rule div_mult_mod_eq)
  have h3: "c div 64 * 64 + c mod 64 = c" by (rule div_mult_mod_eq)
  show ?thesis by (simp only: g [unfolded h0] h2 [unfolded h1] h3)
qed

lemma utf8_decode_2:
  assumes "128 \<le> c" "c < 2048"
  shows "utf8_decode ((192 + c div 64) # (128 + c mod 64) # rest) = cons_res c (utf8_decode rest)"
proof -
  have a: "2 \<le> c div 64" "c div 64 < 32"
    using assms by (simp_all add: less_eq_div_iff_mult_less_eq less_mult_imp_div_less)
  have m: "c mod 64 < 64" by simp
  from utf8_decode_2_bytes [OF a m, of rest] show ?thesis unfolding split_2 .
qed

lemma utf8_decode_3:
  assumes "2048 \<le> c" "c < 65536" "\<not> (55296 \<le> c \<and> c \<le> 57343)"
  shows "utf8_decode ((224 + c div 4096) # (128 + c div 64 mod 64) # (128 + c mod 64) # rest)
           = cons_res c (utf8_decode rest)"
proof -
  have a: "c div 4096 < 16" using assms by (simp add: less_mult_imp_div_less)
  have m: "c div 64 mod 64 < 64" "c mod 64 < 64" by simp_all
  have p: "2048 \<le> (c div 4096 * 64 + c div 64 mod 64) * 64 + c mod 64"
    "\<not> (55296 \<le> (c div 4096 * 64 + c div 64 mod 64) * 64 + c mod 64
        \<and> (c div 4096 * 64 + c div 64 mod 64) * 64 + c mod 64 \<le> 57343)"
    unfolding split_3 by fact+
  from utf8_decode_3_bytes [OF a m p, of rest] show ?thesis unfolding split_3 .
qed

lemma utf8_decode_4:
  assumes "65536 \<le> c" "c < 1114112"
  shows "utf8_decode ((240 + c div 262144) # (128 + c div 4096 mod 64) # (128 + c div 64 mod 64)
            # (128 + c mod 64) # rest)
           = cons_res c (utf8_decode rest)"
proof -
  have a: "c div 262144 < 8" using assms by (simp add: less_mult_imp_div_less)
  have m: "c div 4096 mod 64 < 64" "c div 64 mod 64 < 64" "c mod 64 < 64" by simp_all
  have p: "65536 \<le> ((c div 262144 * 64 + c div 4096 mod 64) * 64 + c div 64 mod 64) * 64 + c mod 64"
    "((c div 262144 * 64 + c div 4096 mod 64) * 64 + c div 64 mod 64) * 64 + c mod 64 < 1114112"
    unfolding split_4 by fact+
  from utf8_decode_4_bytes [OF a m p, of rest] show ?thesis unfolding split_4 .
qed

lemma utf8_decode_char:
  assumes "utf8_char c = Inr bs"
  shows "utf8_decode (bs @ rest) = cons_res c (utf8_decode rest)"
proof -
  consider (one) "c < 128" | (two) "128 \<le> c" "c < 2048" | (three) "2048 \<le> c" "c < 65536"
    | (four) "65536 \<le> c"
    by linarith
  then show ?thesis
  proof cases
    case one
    with assms have "bs = [c]" by (simp add: utf8_char_def)
    with one show ?thesis by simp
  next
    case two
    with assms have "bs = [192 + c div 64, 128 + c mod 64]" by (simp add: utf8_char_def)
    with utf8_decode_2 [OF two] show ?thesis by (simp del: utf8_decode.simps)
  next
    case three
    with assms have n: "\<not> (55296 \<le> c \<and> c \<le> 57343)"
      and "bs = [224 + c div 4096, 128 + c div 64 mod 64, 128 + c mod 64]"
      by (auto simp: utf8_char_def split: if_splits)
    with utf8_decode_3 [OF three n] show ?thesis by (simp del: utf8_decode.simps)
  next
    case four
    with assms have l: "c < 1114112"
      and "bs = [240 + c div 262144, 128 + c div 4096 mod 64, 128 + c div 64 mod 64, 128 + c mod 64]"
      by (auto simp: utf8_char_def split: if_splits)
    with utf8_decode_4 [OF four l] show ?thesis by (simp del: utf8_decode.simps)
  qed
qed

lemma utf8_decode_encode: "utf8_encode t = Inr bs \<Longrightarrow> utf8_decode bs = Inr t"
proof (induction t arbitrary: bs)
  case Nil
  then show ?case by simp
next
  case (Cons c t)
  then obtain b r where br: "utf8_char c = Inr b" "utf8_encode t = Inr r" "bs = b @ r"
    by (auto split: sum.splits)
  from Cons.IH [OF br(2)] utf8_decode_char [OF br(1), of r] br(3)
  show ?case by (simp add: cons_res_def)
qed

lemma universal_newlines_id: "13 \<notin> set t \<Longrightarrow> universal_newlines t = t"
  by (induction t rule: universal_newlines.induct) auto

lemma nat_str_no_cr: "13 \<notin> set (nat_str n)"
  using nat_str_digits [of n] by (auto simp: list_all_iff)

lemma int_str_no_cr: "13 \<notin> set (int_str i)"
  by (simp add: int_str_def nat_str_no_cr)

lemma escape_char_no_cr: "13 \<notin> set (escape_char c)"
  by (auto simp: escape_char_def hex_digit_def)

lemma encode_basestring_no_cr: "13 \<notin> set (encode_basestring s)"
  by (induction s) (auto simp: encode_basestring_def escape_char_no_cr)

lemma join_no_cr: "13 \<notin> set sep \<Longrightarrow> \<forall>x\<in>set xs. 13 \<notin> set x \<Longrightarrow> 13 \<notin> set (join sep xs)"
  by (induction sep xs rule: join.induct) auto

lemma newline_indent_no_cr: "13 \<notin> set (newline_indent n)"
  by (simp add: newline_indent_def)

lemma iterencode_no_cr: "loadable fc v \<Longrightarrow> 13 \<notin> set (iterencode n v)"
proof (induction v arbitrary: n)
  case (JArr xs)
  have "\<forall>t\<in>set (map (iterencode (Suc n)) xs). 13 \<notin> set t"
    using JArr by (auto simp: list_all_iff)
  then have "13 \<notin> set (join (44 # newline_indent (Suc n)) (map (iterencode (Suc n)) xs))"
    by (intro join_no_cr) (simp_all add: newline_indent_no_cr)
  then show ?case by (simp add: newline_indent_no_cr ustr_def)
next
  case (JObj kvs)
  have "13 \<notin> set (encode_basestring (fst kv) @ ustr '': '' @ iterencode (Suc n) (snd kv))"
    if "kv \<in> set kvs" for kv
  proof -
    from that JObj.prems have e: "loadable fc (snd kv)" by (auto simp: list_all_iff)
    have "snd kv \<in> Basic_BNFs.snds kv" by (cases kv) simp
    from JObj.IH [OF that this e] show ?thesis by (simp add: encode_basestring_no_cr ustr_def)
  qed
  then have "\<forall>t\<in>set (map (\<lambda>kv. encode_basestring (fst kv) @ ustr '': '' @ iterencode (Suc n) (snd kv)) kvs).
      13 \<notin> set t"
    by simp
  then have "13 \<notin> set (join (44 # newline_indent (Suc n))
      (map (\<lambda>kv. encode_basestring (fst kv) @ ustr '': '' @ iterencode (Suc n) (snd kv)) kvs))"
    by (intro join_no_cr) (simp_all add: newline_indent_no_cr)
  then show ?case by (simp add: newline_indent_no_cr ustr_def)
qed (simp_all add: int_str_no_cr encode_basestring_no_cr ustr_def float_rereads_def)

lemma load_written:
  assumes "loadable fc v" and "utf8_encode (dumps v) = Inr bytes" and "fs path = Some bytes"
  shows "load fc fs path = Inr v"
  using assms utf8_decode_encode [OF assms(2)] iterencode_no_cr [OF assms(1), of 0]
  by (simp add: load_def dumps_def [symmetric] universal_newlines_id loads_dumps)

lemma encode_accent_example:
  "utf8_encode (dumps (JArr [JObj [(ustr ''k'', JStr [233])]])) =
     Inr [91, 10, 32, 32, 32, 32, 123, 10, 32, 32, 32, 32, 32, 32, 32, 32, 34, 107, 34, 58, 32, 34,
        195, 169, 34, 10, 32, 32, 32, 32, 125, 10, 93]"
  by code_simp

text \<open>
  Claim C5. When \<open>writeCleaned\<close> has written \<open>valid\<close>, reading the output file with
  \<open>load\<close> returns the array \<open>valid\<close> itself, same Records in the same order; the write
  succeeds whenever \<open>valid\<close> is encodable. \<open>valid\<close> is a list of values as \<^verbatim>\<open>json.load\<close>
  produces them: distinct keys in every object, floats that are re-read as printed.
\<close>

theorem cleaned_file_round_trip:
  assumes "list_all (loadable fc) valid"
  shows "(writeCleaned fs valid = Inr fs' \<longrightarrow> load fc fs' output_file = Inr (JArr valid)) \<and>
         (list_all encodable valid \<longrightarrow> (\<exists>fs'. writeCleaned fs valid = Inr fs'))"
proof (intro conjI impI)
  assume "writeCleaned fs valid = Inr fs'"
  then obtain bytes where b: "utf8_encode (dumps (JArr valid)) = Inr bytes" "fs' = fs(output_file \<mapsto> bytes)"
    by (auto simp: writeCleaned_def dump_to_file_Inr)
  from assms have l: "loadable fc (JArr valid)" by simp
  from b(2) have "fs' output_file = Some bytes" by simp
  with load_written [where fc = fc and v = "JArr valid" and bytes = bytes and fs = fs'
      and path = output_file] l b(1)
  show "load fc fs' output_file = Inr (JArr valid)" by simp
next
  assume "list_all encodable valid"
  then have "encodable (JArr valid)" by simp
  from dumps_encodable [OF this] show "\<exists>fs'. writeCleaned fs valid = Inr fs'"
    by (auto simp: writeCleaned_def dump_to_file_def)
qed

theorem cleaned_file_round_trip_witness:
  "list_all (loadable id) [JObj [(ustr ''k'', JStr [233])]] \<and>
   writeCleaned Map.empty [JObj [(ustr ''k'', JStr [233])]] =
     Inr (Map.empty(output_file \<mapsto>
       [91, 10, 32, 32, 32, 32, 123, 10, 32, 32, 32, 32, 32, 32, 32, 32, 34, 107, 34, 58, 32, 34,
        195, 169, 34, 10, 32, 32, 32, 32, 125, 10, 93])) \<and>
   load id (Map.empty(output_file \<mapsto>
       [91, 10, 32, 32, 32, 32, 123, 10, 32, 32, 32, 32, 32, 32, 32, 32, 34, 107, 34, 58, 32, 34,
        195, 169, 34, 10, 32, 32, 32, 32, 125, 10, 93])) output_file =
     Inr (JArr [JObj [(ustr ''k'', JStr [233])]])"
proof -
  let ?V = "[JObj [(ustr ''k'', JStr [233])]]"
  let ?fs = "Map.empty(output_file \<mapsto>
       [91, 10, 32, 32, 32, 32, 123, 10, 32, 32, 32, 32, 32, 32, 32, 32, 34, 107, 34, 58, 32, 34,
        195, 169, 34, 10, 32, 32, 32, 32, 125, 10, 93])"
  have l: "list_all (loadable id) ?V" by simp
  have w: "writeCleaned Map.empty ?V = Inr ?fs"
    by (simp add: writeCleaned_def dump_to_file_def encode_accent_example)
  from cleaned_file_round_trip [where fc = id and valid = "?V" and fs = Map.empty and fs' = "?fs"] l w
  have "load id ?fs output_file = Inr (JArr ?V)" by blast
  with l w show ?thesis by blast
qed

section \<open>What \<open>load\<close> returns\<close>







lemma skip_ws_tail_length: "skip_ws r = c # r' \<Longrightarrow> length r' < length r"
  using skip_ws_length [of r] by simp












end
